theory Spec2Isabelle
  imports Complex_Main "HOL-Library.Char_ord" "HOL-Library.Product_Lexorder" "HOL-Library.List_Lexorder"
begin

section \<open>JavaScript strings\<close>

text \<open>
  A JavaScript string is a sequence of UTF-16 code units. A code unit is modelled by its
  two bytes, the high one first, so that the order \<open>\<le>\<close> on code units is the order of
  their values, and the order \<open>\<le>\<close> on \<open>jsstring\<close> is the lexicographic order of the
  code units: the order \<^verbatim>\<open>Array.prototype.sort\<close> uses on strings when it is given no
  comparator.
\<close>

type_synonym uchar = "char \<times> char"
type_synonym jsstring = "uchar list"

definition js :: "string \<Rightarrow> jsstring" where
  \<comment> \<open>An ASCII literal of the script as a JavaScript string.\<close>
  "js s = map (\<lambda>c. (CHR 0x00, c)) s"

definition is_js_space :: "uchar \<Rightarrow> bool" where
  \<comment> \<open>WhiteSpace and LineTerminator of ECMAScript, which \<^verbatim>\<open>trim\<close> strips: U+0009 to
      U+000D, U+0020, U+00A0, U+1680, U+2000 to U+200A, U+2028, U+2029, U+202F, U+205F,
      U+3000 and U+FEFF.\<close>
  "is_js_space c = (c \<in> set [(CHR 0x00, CHR 0x09), (CHR 0x00, CHR 0x0A), (CHR 0x00, CHR 0x0B),
      (CHR 0x00, CHR 0x0C), (CHR 0x00, CHR 0x0D), (CHR 0x00, CHR 0x20), (CHR 0x00, CHR 0xA0),
      (CHR 0x16, CHR 0x80), (CHR 0x20, CHR 0x00), (CHR 0x20, CHR 0x01), (CHR 0x20, CHR 0x02),
      (CHR 0x20, CHR 0x03), (CHR 0x20, CHR 0x04), (CHR 0x20, CHR 0x05), (CHR 0x20, CHR 0x06),
      (CHR 0x20, CHR 0x07), (CHR 0x20, CHR 0x08), (CHR 0x20, CHR 0x09), (CHR 0x20, CHR 0x0A),
      (CHR 0x20, CHR 0x28), (CHR 0x20, CHR 0x29), (CHR 0x20, CHR 0x2F), (CHR 0x20, CHR 0x5F),
      (CHR 0x30, CHR 0x00), (CHR 0xFE, CHR 0xFF)])"

definition trim :: "jsstring \<Rightarrow> jsstring" where
  \<comment> \<open>\<^verbatim>\<open>String.prototype.trim\<close>\<close>
  "trim s = rev (dropWhile is_js_space (rev (dropWhile is_js_space s)))"

fun startsWith :: "jsstring \<Rightarrow> jsstring \<Rightarrow> bool" where
  "startsWith s [] = True"
| "startsWith [] (d # ds) = False"
| "startsWith (c # cs) (d # ds) = (c = d \<and> startsWith cs ds)"

fun js_includes :: "jsstring \<Rightarrow> jsstring \<Rightarrow> bool" where
  \<comment> \<open>\<^verbatim>\<open>s.includes(d)\<close>: \<open>d\<close> occurs in \<open>s\<close> at some position.\<close>
  "js_includes [] d = (d = [])"
| "js_includes (c # cs) d = (startsWith (c # cs) d \<or> js_includes cs d)"

definition endsWith :: "jsstring \<Rightarrow> jsstring \<Rightarrow> bool" where
  "endsWith s d = (length d \<le> length s \<and> drop (length s - length d) s = d)"

section \<open>JSON values\<close>

text \<open>
  What \<^verbatim>\<open>JSON.parse\<close> returns. An object is the list of its own properties, each
  key once, in insertion order. The number of \<open>JNum\<close> is the value of the parsed
  number; the script only ever asks whether it is zero.
\<close>

datatype json =
    JNull
  | JBool bool
  | JNum rat
  | JStr jsstring
  | JArr "json list"
  | JObj "(jsstring \<times> json) list"

fun get_prop :: "json \<Rightarrow> jsstring \<Rightarrow> json option" where
  \<comment> \<open>\<^verbatim>\<open>t?.key\<close> for a key that no prototype defines (\<^verbatim>\<open>name\<close>, \<^verbatim>\<open>tool\<close>,
      \<^verbatim>\<open>id\<close>, \<^verbatim>\<open>tools\<close>); \<open>None\<close> is \<^verbatim>\<open>undefined\<close>.\<close>
  "get_prop (JObj kvs) k = map_of kvs k"
| "get_prop _ k = None"

fun truthy :: "json option \<Rightarrow> bool" where
  "truthy None = False"
| "truthy (Some JNull) = False"
| "truthy (Some (JBool b)) = b"
| "truthy (Some (JNum x)) = (x \<noteq> 0)"
| "truthy (Some (JStr s)) = (s \<noteq> [])"
| "truthy (Some (JArr xs)) = True"
| "truthy (Some (JObj kvs)) = True"

definition js_or :: "json option \<Rightarrow> json option \<Rightarrow> json option" where
  \<comment> \<open>\<^verbatim>\<open>a || b\<close>\<close>
  "js_or a b = (if truthy a then a else b)"

section \<open>extractToolNames\<close>

definition manifest_tools :: "json \<Rightarrow> json list" where
  "manifest_tools mcpToolsJson =
     (case mcpToolsJson of
        JArr ts \<Rightarrow> ts
      | _ \<Rightarrow> (case get_prop mcpToolsJson (js ''tools'') of Some (JArr ts) \<Rightarrow> ts | _ \<Rightarrow> []))"

definition entry_value :: "json \<Rightarrow> json option" where
  \<comment> \<open>\<^verbatim>\<open>t?.name || t?.tool || t?.id\<close>\<close>
  "entry_value t = js_or (js_or (get_prop t (js ''name'')) (get_prop t (js ''tool''))) (get_prop t (js ''id''))"

definition entry_name :: "json \<Rightarrow> jsstring option" where
  \<comment> \<open>The name one manifest entry pushes, if it pushes one:
      \<^verbatim>\<open>if (typeof n === "string" && n.trim()) names.push(n.trim())\<close>.\<close>
  "entry_name t =
     (case entry_value t of
        Some (JStr n) \<Rightarrow> if trim n \<noteq> [] then Some (trim n) else None
      | _ \<Rightarrow> None)"

fun collect_names :: "json list \<Rightarrow> jsstring list \<Rightarrow> jsstring list" where
  \<comment> \<open>The loop over \<^verbatim>\<open>tools\<close>, with \<^verbatim>\<open>names\<close> as its accumulator.\<close>
  "collect_names [] names = names"
| "collect_names (t # ts) names =
     collect_names ts (case entry_name t of Some n \<Rightarrow> names @ [n] | None \<Rightarrow> names)"

fun set_from :: "'a list \<Rightarrow> 'a list \<Rightarrow> 'a list" where
  \<comment> \<open>\<^verbatim>\<open>Array.from(new Set(xs))\<close>: a Set keeps the first insertion of each value, in
      insertion order. The second argument is the Set built so far.\<close>
  "set_from [] seen = seen"
| "set_from (x # xs) seen = set_from xs (if x \<in> set seen then seen else seen @ [x])"

definition extractToolNames :: "json \<Rightarrow> jsstring list" where
  "extractToolNames mcpToolsJson =
     (let tools = manifest_tools mcpToolsJson;
          names = collect_names tools [];
          uniq = set_from names []
      in sort uniq)"

subsection \<open>The extractor as the specification words it\<close>

definition is_nonempty_string :: "json option \<Rightarrow> bool" where
  "is_nonempty_string v = (case v of Some (JStr s) \<Rightarrow> s \<noteq> [] | _ \<Rightarrow> False)"

definition spec_entry_name :: "json \<Rightarrow> jsstring option" where
  \<comment> \<open>"the first present field among name, tool, id that is a non-empty string
      (whitespace trimmed)": a field holding anything else is passed over.\<close>
  "spec_entry_name t =
     (case find is_nonempty_string [get_prop t (js ''name''), get_prop t (js ''tool''), get_prop t (js ''id'')] of
        Some (Some (JStr s)) \<Rightarrow> Some (trim s)
      | _ \<Rightarrow> None)"

section \<open>Numbers in template literals\<close>

fun show_nat :: "nat \<Rightarrow> jsstring" where
  \<comment> \<open>The decimal digits of a non-negative integer, as a template literal prints it.\<close>
  "show_nat n =
     (if n < 10 then [(CHR 0x00, ''0123456789'' ! n)]
      else show_nat (n div 10) @ [(CHR 0x00, ''0123456789'' ! (n mod 10))])"

declare show_nat.simps [simp del]

section \<open>Regular expressions\<close>

text \<open>
  The fragment of ECMAScript patterns the script builds: assertions \<^verbatim>\<open>^\<close> and \<^verbatim>\<open>$\<close>
  (no \<^verbatim>\<open>m\<close> flag: start and end of the input), pattern characters, a negated
  character class, alternation and sequence. A match is computed as the backtracking
  matcher of the language specification does: \<open>re_match\<close> lists the end positions of
  the matches of a pattern that start at a position.
\<close>

datatype regex =
    Empty
  | Bol
  | Eol
  | Chr uchar
  | NotIn "uchar list"
  | Alt regex regex
  | Seq regex regex

definition below_128 :: "uchar \<Rightarrow> bool" where
  \<comment> \<open>The value of the code unit is below 128: the high byte is zero and the top bit
      of the low byte is not set.\<close>
  "below_128 c = (fst c = CHR 0x00 \<and> \<not> digit7 (snd c))"

definition canonicalize :: "(uchar \<Rightarrow> jsstring) \<Rightarrow> uchar \<Rightarrow> uchar" where
  \<comment> \<open>Canonicalize of ECMAScript for a pattern with the \<^verbatim>\<open>i\<close> flag and without the
      \<^verbatim>\<open>u\<close> flag. \<open>up\<close> is \<^verbatim>\<open>toUpperCase\<close> on one code unit, a table of the
      runtime.\<close>
  "canonicalize up ch =
     (case up ch of
        [cu] \<Rightarrow> if \<not> below_128 ch \<and> below_128 cu then ch else cu
      | _ \<Rightarrow> ch)"

definition in_class :: "(uchar \<Rightarrow> uchar) \<Rightarrow> uchar list \<Rightarrow> uchar \<Rightarrow> bool" where
  \<comment> \<open>A character is in a class when its canonical form is that of a member.\<close>
  "in_class canon cls ch = list_ex (\<lambda>a. canon a = canon ch) cls"

fun re_match :: "(uchar \<Rightarrow> uchar) \<Rightarrow> regex \<Rightarrow> jsstring \<Rightarrow> nat \<Rightarrow> nat list" where
  "re_match canon Empty input i = [i]"
| "re_match canon Bol input i = (if i = 0 then [i] else [])"
| "re_match canon Eol input i = (if i = length input then [i] else [])"
| "re_match canon (Chr c) input i =
     (if i < length input \<and> canon (input ! i) = canon c then [Suc i] else [])"
| "re_match canon (NotIn cls) input i =
     (if i < length input \<and> \<not> in_class canon cls (input ! i) then [Suc i] else [])"
| "re_match canon (Alt r1 r2) input i = re_match canon r1 input i @ re_match canon r2 input i"
| "re_match canon (Seq r1 r2) input i =
     concat (map (re_match canon r2 input) (re_match canon r1 input i))"

definition re_test :: "(uchar \<Rightarrow> uchar) \<Rightarrow> regex \<Rightarrow> jsstring \<Rightarrow> bool" where
  \<comment> \<open>\<^verbatim>\<open>re.test(input)\<close> for a pattern without the \<^verbatim>\<open>g\<close> and \<^verbatim>\<open>y\<close> flags: a match
      starting at some position of the input.\<close>
  "re_test canon r input = list_ex (\<lambda>i. re_match canon r input i \<noteq> []) [0 ..< Suc (length input)]"

definition backslash :: uchar where
  "backslash = (CHR 0x00, CHR 0x5C)"

definition syntax_characters :: "uchar list" where
  \<comment> \<open>The class of \<^verbatim>\<open>escapeRegExp\<close>, which is the SyntaxCharacter of the pattern
      grammar: \<^verbatim>\<open>. * + ? ^ $ { } ( ) | [ ]\<close> and the backslash.\<close>
  "syntax_characters = js ''.*+?^${}()|[]'' @ [backslash]"

definition escapeRegExp :: "jsstring \<Rightarrow> jsstring" where
  \<comment> \<open>\<^verbatim>\<open>s.replace\<close> with the class of the syntax characters, the flag \<^verbatim>\<open>g\<close> and
      the replacement \<^verbatim>\<open>"\\$&"\<close>: a backslash before every character of the class.\<close>
  "escapeRegExp s = concat (map (\<lambda>c. if c \<in> set syntax_characters then [backslash, c] else [c]) s)"

fun parse_literals :: "jsstring \<Rightarrow> regex option" where
  \<comment> \<open>The pattern parser on the text interpolated into the pattern: an identity escape
      of a syntax character and a pattern character each stand for that character.
      \<open>None\<close> is a text outside this fragment.\<close>
  "parse_literals [] = Some Empty"
| "parse_literals [c] = (if c \<in> set syntax_characters then None else Some (Seq (Chr c) Empty))"
| "parse_literals (c # d # ds) =
     (if c = backslash then
        (if d \<in> set syntax_characters then map_option (Seq (Chr d)) (parse_literals ds) else None)
      else if c \<in> set syntax_characters then None
      else map_option (Seq (Chr c)) (parse_literals (d # ds)))"

definition word_class :: "uchar list" where
  \<comment> \<open>The members of \<^verbatim>\<open>[a-z0-9_]\<close>\<close>
  "word_class = js ''abcdefghijklmnopqrstuvwxyz0123456789_''"

definition tool_regex :: "jsstring \<Rightarrow> regex option" where
  \<comment> \<open>\<^verbatim>\<open>new RegExp(`(^|[^a-z0-9_])${escapeRegExp(name)}([^a-z0-9_]|$)`, "i")\<close>\<close>
  "tool_regex name =
     map_option (\<lambda>lit. Seq (Alt Bol (NotIn word_class)) (Seq lit (Alt (NotIn word_class) Eol)))
       (parse_literals (escapeRegExp name))"

section \<open>Paths\<close>

text \<open>The functions of Node's \<^verbatim>\<open>path\<close> module the script calls, on POSIX.\<close>

definition slash :: uchar where
  "slash = (CHR 0x00, CHR 0x2F)"

fun split_on :: "uchar \<Rightarrow> jsstring \<Rightarrow> jsstring list" where
  \<comment> \<open>\<^verbatim>\<open>s.split(sep)\<close> for a one-character separator\<close>
  "split_on sep [] = [[]]"
| "split_on sep (c # cs) =
     (if c = sep then [] # split_on sep cs
      else (case split_on sep cs of [] \<Rightarrow> [[c]] | p # ps \<Rightarrow> (c # p) # ps))"

fun join_with :: "jsstring \<Rightarrow> jsstring list \<Rightarrow> jsstring" where
  \<comment> \<open>\<^verbatim>\<open>xs.join(sep)\<close>\<close>
  "join_with sep [] = []"
| "join_with sep [x] = x"
| "join_with sep (x # y # ys) = x @ sep @ join_with sep (y # ys)"

definition norm_step :: "bool \<Rightarrow> jsstring list \<Rightarrow> jsstring \<Rightarrow> jsstring list" where
  "norm_step allowAboveRoot res seg =
     (if seg = [] \<or> seg = js ''.'' then res
      else if seg = js ''..'' then
        (if res \<noteq> [] \<and> last res \<noteq> js ''..'' then butlast res
         else if allowAboveRoot then res @ [seg] else res)
      else res @ [seg])"

definition normalize_segments :: "bool \<Rightarrow> jsstring \<Rightarrow> jsstring list" where
  "normalize_segments allowAboveRoot p = foldl (norm_step allowAboveRoot) [] (split_on slash p)"

fun isAbsolute :: "jsstring \<Rightarrow> bool" where
  "isAbsolute [] = False"
| "isAbsolute (c # cs) = (c = slash)"

definition normalize :: "jsstring \<Rightarrow> jsstring" where
  "normalize p =
     (if p = [] then js ''.''
      else let isAbs = isAbsolute p;
               trailingSeparator = (last p = slash);
               q = join_with [slash] (normalize_segments (\<not> isAbs) p)
           in if q = [] then (if isAbs then [slash] else if trailingSeparator then js ''./'' else js ''.'')
              else (if isAbs then [slash] else []) @ q @ (if trailingSeparator then [slash] else []))"

definition path_join :: "jsstring list \<Rightarrow> jsstring" where
  "path_join parts =
     (let joined = join_with [slash] (filter (\<lambda>a. a \<noteq> []) parts)
      in if joined = [] then js ''.'' else normalize joined)"

definition basename :: "jsstring \<Rightarrow> jsstring" where
  "basename p = (case filter (\<lambda>a. a \<noteq> []) (split_on slash p) of [] \<Rightarrow> [] | segs \<Rightarrow> last segs)"

fun common_prefix :: "'a list \<Rightarrow> 'a list \<Rightarrow> nat" where
  "common_prefix (x # xs) (y # ys) = (if x = y then Suc (common_prefix xs ys) else 0)"
| "common_prefix xs ys = 0"

definition path_resolve :: "jsstring \<Rightarrow> jsstring \<Rightarrow> jsstring list" where
  \<comment> \<open>The segments of \<^verbatim>\<open>path.resolve(p)\<close> in a process whose working directory is
      \<open>wd\<close>.\<close>
  "path_resolve wd p = normalize_segments False (if isAbsolute p then p else wd @ [slash] @ p)"

definition path_relative :: "jsstring \<Rightarrow> jsstring \<Rightarrow> jsstring \<Rightarrow> jsstring" where
  "path_relative wd from to =
     (let f = path_resolve wd from; t = path_resolve wd to; k = common_prefix f t
      in join_with [slash] (replicate (length f - k) (js ''..'') @ drop k t))"

section \<open>The world the script runs in\<close>

text \<open>
  The file system is a tree of regular files and directories; a directory lists its
  entries in the order \<^verbatim>\<open>readdirSync\<close> returns them. Paths are resolved as the operating
  system resolves them, one segment after the other from the root.
\<close>

datatype fsnode = File jsstring | Dir "(jsstring \<times> fsnode) list"

datatype fs_errno = ENOENT | ENOTDIR | EISDIR

datatype js_error = JsError (err_name: jsstring) (err_message: jsstring)

record request =
  req_url :: jsstring
  req_method :: jsstring
  req_headers :: "(jsstring \<times> jsstring) list"

datatype reply =
    NoReply \<comment> \<open>neither a response nor an error ever arrives\<close>
  | RequestError js_error \<comment> \<open>the request emits \<^verbatim>\<open>error\<close>\<close>
  | Response nat "jsstring list" \<comment> \<open>status code, and the chunks of the body\<close>

record world =
  env :: "jsstring \<Rightarrow> jsstring option" \<comment> \<open>\<^verbatim>\<open>process.env\<close>\<close>
  cwd :: jsstring \<comment> \<open>\<^verbatim>\<open>process.cwd()\<close>\<close>
  fs_root :: fsnode
  https_request :: "request \<Rightarrow> reply"
  JSON_parse :: "jsstring \<Rightarrow> jsstring + json" \<comment> \<open>\<open>Inl\<close>: the message of the SyntaxError\<close>
  fs_error_message :: "fs_errno \<Rightarrow> jsstring \<Rightarrow> jsstring"
  stack_frames :: "js_error \<Rightarrow> jsstring option" \<comment> \<open>the frames of \<^verbatim>\<open>err.stack\<close>, if it has one\<close>
  toUpperCase :: "uchar \<Rightarrow> jsstring"

fun fs_walk :: "fsnode \<Rightarrow> fsnode list \<Rightarrow> jsstring list \<Rightarrow> fs_errno + fsnode" where
  \<comment> \<open>From a node and its ancestors (nearest first), along the segments of a path.\<close>
  "fs_walk n anc [] = Inr n"
| "fs_walk (File txt) anc (c # cs) = Inl ENOTDIR"
| "fs_walk (Dir es) anc (c # cs) =
     (if c = [] \<or> c = js ''.'' then fs_walk (Dir es) anc cs
      else if c = js ''..'' then
        (case anc of [] \<Rightarrow> fs_walk (Dir es) [] cs | a # as \<Rightarrow> fs_walk a as cs)
      else (case map_of es c of None \<Rightarrow> Inl ENOENT | Some m \<Rightarrow> fs_walk m (Dir es # anc) cs))"

definition fs_lookup :: "world \<Rightarrow> jsstring \<Rightarrow> fs_errno + fsnode" where
  "fs_lookup w p =
     (if p = [] then Inl ENOENT
      else fs_walk (fs_root w) [] (split_on slash (if isAbsolute p then p else cwd w @ [slash] @ p)))"

definition fs_error :: "world \<Rightarrow> fs_errno \<Rightarrow> jsstring \<Rightarrow> js_error" where
  "fs_error w e p = JsError (js ''Error'') (fs_error_message w e p)"

definition existsSync :: "world \<Rightarrow> jsstring \<Rightarrow> bool" where
  "existsSync w p = (case fs_lookup w p of Inr n \<Rightarrow> True | Inl e \<Rightarrow> False)"

definition readText :: "world \<Rightarrow> jsstring \<Rightarrow> js_error + jsstring" where
  \<comment> \<open>\<^verbatim>\<open>fs.readFileSync(filePath, "utf8")\<close>\<close>
  "readText w filePath =
     (case fs_lookup w filePath of
        Inl e \<Rightarrow> Inl (fs_error w e filePath)
      | Inr (Dir es) \<Rightarrow> Inl (fs_error w EISDIR filePath)
      | Inr (File txt) \<Rightarrow> Inr txt)"

section \<open>walkFiles\<close>

fun walk_entries :: "(jsstring \<Rightarrow> bool) \<Rightarrow> jsstring \<Rightarrow> (jsstring \<times> fsnode) list \<Rightarrow> jsstring list" where
  \<comment> \<open>The loop over the entries of \<open>dir\<close>; the recursive call reads the entries of the
      directory \<open>ent\<close>.\<close>
  "walk_entries predicate dir [] = []"
| "walk_entries predicate dir ((name, ent) # ents) =
     (let p = path_join [dir, name]
      in (case ent of
            Dir sub \<Rightarrow> walk_entries predicate p sub
          | File txt \<Rightarrow> if predicate p then [p] else [])
         @ walk_entries predicate dir ents)"

definition walkFiles :: "world \<Rightarrow> jsstring \<Rightarrow> (jsstring \<Rightarrow> bool) \<Rightarrow> js_error + jsstring list" where
  "walkFiles w dir predicate =
     (case fs_lookup w dir of
        Inl e \<Rightarrow> Inl (fs_error w e dir)
      | Inr (File txt) \<Rightarrow> Inl (fs_error w ENOTDIR dir)
      | Inr (Dir ents) \<Rightarrow> Inr (walk_entries predicate dir ents))"

section \<open>fetchJson\<close>

definition env_or_empty :: "world \<Rightarrow> jsstring \<Rightarrow> jsstring" where
  \<comment> \<open>\<^verbatim>\<open>process.env.KEY || ""\<close>\<close>
  "env_or_empty w k = (case env w k of Some v \<Rightarrow> v | None \<Rightarrow> [])"

definition github_token :: "world \<Rightarrow> jsstring" where
  \<comment> \<open>\<^verbatim>\<open>process.env.GITHUB_TOKEN || process.env.GH_TOKEN || ""\<close>\<close>
  "github_token w =
     (if env_or_empty w (js ''GITHUB_TOKEN'') \<noteq> [] then env_or_empty w (js ''GITHUB_TOKEN'')
      else env_or_empty w (js ''GH_TOKEN''))"

definition fetch_request :: "world \<Rightarrow> jsstring \<Rightarrow> request" where
  \<comment> \<open>The arguments of \<^verbatim>\<open>https.request\<close>\<close>
  "fetch_request w url =
     (let token = github_token w
      in \<lparr> req_url = url,
           req_method = js ''GET'',
           req_headers =
             [(js ''Accept'', js ''application/json'')]
             @ (if token \<noteq> [] then [(js ''Authorization'', js ''Bearer '' @ token)] else [])
             @ [(js ''User-Agent'', js ''adsgateway-docs-guardrails'')] \<rparr>)"

definition fetchJson :: "world \<Rightarrow> jsstring \<Rightarrow> (js_error + json) option" where
  \<comment> \<open>The promise settles with \<open>Some\<close>; \<open>None\<close>: it never settles.\<close>
  "fetchJson w url =
     (case https_request w (fetch_request w url) of
        NoReply \<Rightarrow> None
      | RequestError err \<Rightarrow> Some (Inl err)
      | Response statusCode chunks \<Rightarrow>
          (let data = foldl (@) [] chunks
           in if statusCode \<noteq> 0 \<and> 400 \<le> statusCode then
                Some (Inl (JsError (js ''Error'')
                  (js ''Fetch failed ('' @ show_nat statusCode @ js '') for '' @ url)))
              else (case JSON_parse w data of
                      Inr v \<Rightarrow> Some (Inr v)
                    | Inl msg \<Rightarrow> Some (Inl (JsError (js ''Error'')
                        (js ''Invalid JSON from '' @ url @ js '': '' @ msg))))))"

section \<open>loadMcpToolsJson\<close>

definition read_json :: "world \<Rightarrow> jsstring \<Rightarrow> js_error + json" where
  \<comment> \<open>\<^verbatim>\<open>JSON.parse(readText(p))\<close>\<close>
  "read_json w p =
     (case readText w p of
        Inl e \<Rightarrow> Inl e
      | Inr txt \<Rightarrow> (case JSON_parse w txt of
                     Inl msg \<Rightarrow> Inl (JsError (js ''SyntaxError'') msg)
                   | Inr v \<Rightarrow> Inr v))"

definition unable_to_locate :: jsstring where
  "unable_to_locate =
     join_with (js '' '')
       [js ''Unable to locate mcp-tools.json.'',
        js ''Set MCP_TOOLS_JSON_PATH or MCP_TOOLS_JSON_URL, or add tooling/mcp-tools.json.'']"

definition siblingPath :: "world \<Rightarrow> jsstring" where
  "siblingPath w =
     path_join [cwd w, js ''..'', js ''adsgpt-gateway'', js ''fastmcp-server'', js ''docs'', js ''mcp-tools.json'']"

definition vendored :: "world \<Rightarrow> jsstring" where
  "vendored w = path_join [cwd w, js ''tooling'', js ''mcp-tools.json'']"

definition loadMcpToolsJson :: "world \<Rightarrow> (js_error + json) option" where
  "loadMcpToolsJson w =
     (let repoRoot = cwd w;
          envPath = trim (env_or_empty w (js ''MCP_TOOLS_JSON_PATH''))
      in if envPath \<noteq> [] then
           (let resolved = (if isAbsolute envPath then envPath else path_join [repoRoot, envPath])
            in Some (read_json w resolved))
         else if existsSync w (siblingPath w) then Some (read_json w (siblingPath w))
         else (let url = trim (env_or_empty w (js ''MCP_TOOLS_JSON_URL''))
               in if url \<noteq> [] then fetchJson w url
                  else if existsSync w (vendored w) then Some (read_json w (vendored w))
                  else Some (Inl (JsError (js ''Error'') unable_to_locate))))"

section \<open>findBannedDomains\<close>

definition banned :: "jsstring list" where
  "banned = [js ''docs.adsgateway.io'', js ''status.adsgateway.io'']"

definition CR :: uchar where
  "CR = (CHR 0x00, CHR 0x0D)"

definition LF :: uchar where
  "LF = (CHR 0x00, CHR 0x0A)"

fun split_lines :: "jsstring \<Rightarrow> jsstring list" where
  \<comment> \<open>\<^verbatim>\<open>txt.split(/\r?\n/)\<close>: searching from the left, a separator is a line feed, or
      a carriage return with the line feed after it.\<close>
  "split_lines [] = [[]]"
| "split_lines [c] = (if c = LF then [[], []] else [[c]])"
| "split_lines (c # d # cs) =
     (if c = LF then [] # split_lines (d # cs)
      else if c = CR \<and> d = LF then [] # split_lines cs
      else (case split_lines (d # cs) of [] \<Rightarrow> [[c]] | l # ls \<Rightarrow> (c # l) # ls))"

record hit =
  hit_file :: jsstring
  hit_line :: nat
  hit_domain :: jsstring
  hit_text :: jsstring

definition docs_predicate :: "jsstring \<Rightarrow> bool" where
  "docs_predicate p = (endsWith p (js ''.mdx'') \<or> endsWith p (js ''.md'') \<or> basename p = js ''docs.json'')"

fun scan_domains :: "jsstring \<Rightarrow> nat \<Rightarrow> jsstring \<Rightarrow> jsstring list \<Rightarrow> hit list \<Rightarrow> hit list" where
  \<comment> \<open>The loop over \<^verbatim>\<open>banned\<close> for the line of index \<open>i\<close>, with \<^verbatim>\<open>hits\<close> as accumulator.\<close>
  "scan_domains file i line [] hits = hits"
| "scan_domains file i line (domain # domains) hits =
     scan_domains file i line domains
       (if js_includes line domain
        then hits @ [\<lparr> hit_file = file, hit_line = i + 1, hit_domain = domain, hit_text = trim line \<rparr>]
        else hits)"

function scan_lines :: "jsstring \<Rightarrow> jsstring list \<Rightarrow> nat \<Rightarrow> hit list \<Rightarrow> hit list" where
  \<comment> \<open>\<^verbatim>\<open>for (let i = 0; i < lines.length; i++)\<close>\<close>
  "scan_lines file lines i hits =
     (if i < length lines
      then scan_lines file lines (i + 1) (scan_domains file i (lines ! i) banned hits)
      else hits)"
  by pat_completeness auto
termination
  by (relation "measure (\<lambda>(file, lines, i, hits). length lines - i)") auto

declare scan_lines.simps [simp del]

fun scan_files :: "world \<Rightarrow> jsstring list \<Rightarrow> hit list \<Rightarrow> js_error + hit list" where
  \<comment> \<open>The loop over \<^verbatim>\<open>files\<close>\<close>
  "scan_files w [] hits = Inr hits"
| "scan_files w (file # files) hits =
     (case readText w file of
        Inl e \<Rightarrow> Inl e
      | Inr txt \<Rightarrow> scan_files w files (scan_lines file (split_lines txt) 0 hits))"

definition findBannedDomains :: "world \<Rightarrow> jsstring \<Rightarrow> js_error + hit list" where
  "findBannedDomains w repoRoot =
     (case walkFiles w repoRoot docs_predicate of
        Inl e \<Rightarrow> Inl e
      | Inr files \<Rightarrow> scan_files w files [])"

section \<open>checkToolsCovered\<close>

fun read_corpus :: "world \<Rightarrow> jsstring list \<Rightarrow> js_error + (jsstring \<times> jsstring) list" where
  \<comment> \<open>\<^verbatim>\<open>toolFiles.map((f) => ({ file: f, text: readText(f) }))\<close>; the first read that
      throws ends the map.\<close>
  "read_corpus w [] = Inr []"
| "read_corpus w (f # fs) =
     (case readText w f of
        Inl e \<Rightarrow> Inl e
      | Inr txt \<Rightarrow> (case read_corpus w fs of Inl e \<Rightarrow> Inl e | Inr rest \<Rightarrow> Inr ((f, txt) # rest)))"

definition ignore_case :: "world \<Rightarrow> uchar \<Rightarrow> uchar" where
  \<comment> \<open>Canonicalize under the flag \<^verbatim>\<open>"i"\<close>\<close>
  "ignore_case w = canonicalize (toUpperCase w)"

fun check_names :: "world \<Rightarrow> (jsstring \<times> jsstring) list \<Rightarrow> jsstring list \<Rightarrow> jsstring list \<Rightarrow> js_error + jsstring list" where
  \<comment> \<open>The loop over \<^verbatim>\<open>toolNames\<close>, with \<^verbatim>\<open>missing\<close> as accumulator. The constructor
      \<^verbatim>\<open>RegExp\<close> throws on a pattern it cannot parse.\<close>
  "check_names w corpus [] missing = Inr missing"
| "check_names w corpus (name # names) missing =
     (case tool_regex name of
        None \<Rightarrow> Inl (JsError (js ''SyntaxError'') (js ''Invalid regular expression''))
      | Some re \<Rightarrow>
          (let found = list_ex (\<lambda>(file, txt). re_test (ignore_case w) re txt) corpus
           in check_names w corpus names (if \<not> found then missing @ [name] else missing)))"

definition checkToolsCovered :: "world \<Rightarrow> jsstring list \<Rightarrow> jsstring \<Rightarrow> js_error + (jsstring list \<times> jsstring list)" where
  \<comment> \<open>Returns \<^verbatim>\<open>{ toolFiles, missing }\<close>\<close>
  "checkToolsCovered w toolNames toolsDocsRoot =
     (case walkFiles w toolsDocsRoot (\<lambda>p. endsWith p (js ''.mdx'')) of
        Inl e \<Rightarrow> Inl e
      | Inr toolFiles \<Rightarrow>
          (case read_corpus w toolFiles of
             Inl e \<Rightarrow> Inl e
           | Inr corpus \<Rightarrow>
               (case check_names w corpus toolNames [] of
                  Inl e \<Rightarrow> Inl e
                | Inr missing \<Rightarrow> Inr (toolFiles, missing))))"

section \<open>main\<close>

record outcome =
  stdout :: "jsstring list" \<comment> \<open>the arguments of \<^verbatim>\<open>console.log\<close>, in order\<close>
  stderr :: "jsstring list" \<comment> \<open>the arguments of \<^verbatim>\<open>console.error\<close>, in order\<close>
  exit_code :: nat

definition toolsDocsRoot :: "world \<Rightarrow> jsstring" where
  "toolsDocsRoot w = path_join [cwd w, js ''tools'']"

definition main_checks :: "world \<Rightarrow> (js_error + (jsstring list \<times> jsstring list \<times> hit list)) option" where
  \<comment> \<open>\<^verbatim>\<open>main\<close> down to \<^verbatim>\<open>bannedHits\<close>: the tool names, the missing ones and the hits,
      or the error thrown on the way. \<open>None\<close>: the awaited promise never settles.\<close>
  "main_checks w =
     (let repoRoot = cwd w
      in if \<not> existsSync w (toolsDocsRoot w) then
           Some (Inl (JsError (js ''Error'') (js ''Missing tools/ directory in docs repo.'')))
         else (case loadMcpToolsJson w of
                 None \<Rightarrow> None
               | Some (Inl e) \<Rightarrow> Some (Inl e)
               | Some (Inr mcpToolsJson) \<Rightarrow>
                   (let toolNames = extractToolNames mcpToolsJson
                    in (case checkToolsCovered w toolNames (toolsDocsRoot w) of
                          Inl e \<Rightarrow> Some (Inl e)
                        | Inr (toolFiles, missing) \<Rightarrow>
                            (case findBannedDomains w repoRoot of
                               Inl e \<Rightarrow> Some (Inl e)
                             | Inr bannedHits \<Rightarrow> Some (Inr (toolNames, missing, bannedHits)))))))"

definition missing_block :: "jsstring list \<Rightarrow> jsstring list" where
  "missing_block missing =
     (if missing \<noteq> [] then
        (LF # js ''[guardrails] Missing tools documentation entries (tools/*.mdx):'')
        # map (\<lambda>n. js ''- '' @ n) missing
      else [])"

definition hit_report :: "world \<Rightarrow> hit \<Rightarrow> jsstring" where
  \<comment> \<open>The line printed for one hit\<close>
  "hit_report w h =
     js ''- '' @ hit_domain h @ js '' in '' @ path_relative (cwd w) (cwd w) (hit_file h)
       @ js '':'' @ show_nat (hit_line h) @ js '' :: '' @ hit_text h"

definition banned_block :: "world \<Rightarrow> hit list \<Rightarrow> jsstring list" where
  "banned_block w bannedHits =
     (if bannedHits \<noteq> [] then
        (LF # js ''[guardrails] Banned domains found:'') # map (hit_report w) bannedHits
      else [])"

definition report :: "world \<Rightarrow> jsstring list \<Rightarrow> jsstring list \<Rightarrow> hit list \<Rightarrow> outcome" where
  \<comment> \<open>\<^verbatim>\<open>main\<close> from \<^verbatim>\<open>let ok = true\<close> on\<close>
  "report w toolNames missing bannedHits =
     (let ok = (missing = [] \<and> bannedHits = [])
      in if \<not> ok then
           \<lparr> stdout = [], stderr = missing_block missing @ banned_block w bannedHits, exit_code = 1 \<rparr>
         else
           \<lparr> stdout = [js ''[guardrails] OK: '' @ show_nat (length toolNames)
                        @ js '' tools covered; no banned domains found.''],
             stderr = [], exit_code = 0 \<rparr>)"

definition error_text :: "world \<Rightarrow> js_error \<Rightarrow> jsstring" where
  \<comment> \<open>\<^verbatim>\<open>err.stack || err.message\<close>. A stack is the error's name and message, then its
      frames.\<close>
  "error_text w err =
     (case stack_frames w err of
        None \<Rightarrow> err_message err
      | Some frames \<Rightarrow>
          (if err_message err = [] then err_name err
           else if err_name err = [] then err_message err
           else err_name err @ js '': '' @ err_message err) @ frames)"

definition top_level_catch :: "world \<Rightarrow> js_error \<Rightarrow> outcome" where
  \<comment> \<open>The handler of \<^verbatim>\<open>main().catch\<close>\<close>
  "top_level_catch w err =
     \<lparr> stdout = [], stderr = [LF # js ''[guardrails] Failed:'', error_text w err], exit_code = 1 \<rparr>"

definition main :: "world \<Rightarrow> outcome option" where
  \<comment> \<open>What the process prints and the status it exits with; \<open>None\<close>: it never exits.\<close>
  "main w =
     (case main_checks w of
        None \<Rightarrow> None
      | Some (Inl err) \<Rightarrow> Some (top_level_catch w err)
      | Some (Inr (toolNames, missing, bannedHits)) \<Rightarrow> Some (report w toolNames missing bannedHits))"

section \<open>What the coverage pattern says\<close>

text \<open>
  \<open>literal s\<close> is the pattern that matches the characters of \<open>s\<close> one after the
  other. \<open>mentions\<close> is the whole-word occurrence the specification describes: the
  name, up to case, with no word character right before it and none right after it.
\<close>

definition literal :: "jsstring \<Rightarrow> regex" where
  "literal s = foldr (\<lambda>c r. Seq (Chr c) r) s Empty"

definition occurs_at :: "(uchar \<Rightarrow> uchar) \<Rightarrow> jsstring \<Rightarrow> jsstring \<Rightarrow> nat \<Rightarrow> bool" where
  "occurs_at canon name txt j =
     (j + length name \<le> length txt \<and>
      map canon (take (length name) (drop j txt)) = map canon name \<and>
      (j = 0 \<or> \<not> in_class canon word_class (txt ! (j - 1))) \<and>
      (j + length name = length txt \<or> \<not> in_class canon word_class (txt ! (j + length name))))"

definition mentions :: "(uchar \<Rightarrow> uchar) \<Rightarrow> jsstring \<Rightarrow> jsstring \<Rightarrow> bool" where
  "mentions canon name txt =
     (\<exists>pre mid post. txt = pre @ mid @ post \<and> map canon mid = map canon name \<and>
        (pre = [] \<or> \<not> in_class canon word_class (last pre)) \<and>
        (post = [] \<or> \<not> in_class canon word_class (hd post)))"

definition tool_pattern :: "jsstring \<Rightarrow> regex" where
  "tool_pattern name = Seq (Alt Bol (NotIn word_class)) (Seq (literal name) (Alt (NotIn word_class) Eol))"

text \<open>
  The three fields an entry is asked for, in the order of the source, and the values
  that give a name: a string with something left after trimming.
\<close>

definition has_content :: "json option \<Rightarrow> bool" where
  "has_content v = (case v of Some (JStr s) \<Rightarrow> trim s \<noteq> [] | _ \<Rightarrow> False)"

definition name_fields :: "json \<Rightarrow> json option list" where
  "name_fields t = [get_prop t (js ''name''), get_prop t (js ''tool''), get_prop t (js ''id'')]"

section \<open>What the scanner reports\<close>

text \<open>
  \<open>tree_paths\<close> lists the path of every file below a directory, in the order of the
  walk. \<open>file_hits\<close> lists, line after line, a hit for every banned domain the line
  contains.
\<close>

fun tree_paths :: "jsstring \<Rightarrow> (jsstring \<times> fsnode) list \<Rightarrow> jsstring list" where
  "tree_paths dir [] = []"
| "tree_paths dir ((name, File content) # ents) = path_join [dir, name] # tree_paths dir ents"
| "tree_paths dir ((name, Dir sub) # ents) = tree_paths (path_join [dir, name]) sub @ tree_paths dir ents"

definition make_hit :: "jsstring \<Rightarrow> nat \<Rightarrow> jsstring \<Rightarrow> jsstring \<Rightarrow> hit" where
  "make_hit file i line domain =
     \<lparr> hit_file = file, hit_line = i + 1, hit_domain = domain, hit_text = trim line \<rparr>"

definition line_hits :: "jsstring \<Rightarrow> nat \<Rightarrow> jsstring \<Rightarrow> hit list" where
  "line_hits file i line = map (make_hit file i line) (filter (js_includes line) banned)"

definition file_hits :: "jsstring \<Rightarrow> jsstring \<Rightarrow> hit list" where
  "file_hits file content =
     concat (map (\<lambda>i. line_hits file i (split_lines content ! i)) [0 ..< length (split_lines content)])"

section \<open>Well-formed file systems\<close>

text \<open>
  In a file system the names of a directory are distinct, non-empty, free of slashes and
  different from \<^verbatim>\<open>.\<close> and \<^verbatim>\<open>..\<close>. \<open>render\<close> writes the absolute, normalised path with
  the given segments, as \<^verbatim>\<open>process.cwd()\<close> returns it. \<open>tree_files\<close> lists every file
  below a directory with its path and its text, and \<open>descend\<close> follows names down the
  tree.
\<close>

definition proper_name :: "jsstring \<Rightarrow> bool" where
  "proper_name n = (n \<noteq> [] \<and> slash \<notin> set n \<and> n \<noteq> js ''.'' \<and> n \<noteq> js ''..'')"

fun wf_node :: "fsnode \<Rightarrow> bool" where
  "wf_node (File content) = True"
| "wf_node (Dir ents) =
     (distinct (map fst ents) \<and> (\<forall>(name, ent) \<in> set ents. proper_name name \<and> wf_node ent))"

definition render :: "jsstring list \<Rightarrow> jsstring" where
  "render segs = (if segs = [] then [slash] else concat (map (\<lambda>s. slash # s) segs))"

fun tree_files :: "jsstring \<Rightarrow> (jsstring \<times> fsnode) list \<Rightarrow> (jsstring \<times> jsstring) list" where
  "tree_files dir [] = []"
| "tree_files dir ((name, File content) # ents) = (path_join [dir, name], content) # tree_files dir ents"
| "tree_files dir ((name, Dir sub) # ents) = tree_files (path_join [dir, name]) sub @ tree_files dir ents"

fun descend :: "fsnode \<Rightarrow> jsstring list \<Rightarrow> fsnode option" where
  "descend n [] = Some n"
| "descend (File content) (c # cs) = None"
| "descend (Dir ents) (c # cs) = (case map_of ents c of None \<Rightarrow> None | Some m \<Rightarrow> descend m cs)"

definition wf_fs :: "world \<Rightarrow> bool" where
  "wf_fs w = wf_node (fs_root w)"

section \<open>Example runs\<close>

definition ascii_toUpperCase :: "uchar \<Rightarrow> jsstring" where
  \<comment> \<open>\<^verbatim>\<open>toUpperCase\<close> on the code units of ASCII\<close>
  "ascii_toUpperCase c =
     (case map_of (zip (js ''abcdefghijklmnopqrstuvwxyz'') (js ''ABCDEFGHIJKLMNOPQRSTUVWXYZ'')) c of
        Some u \<Rightarrow> [u]
      | None \<Rightarrow> [c])"

definition manifest_text :: jsstring where
  \<open>manifest_text = js ''[{"name":"search_ads"},{"id":"list_campaigns"}]''\<close>

definition manifest_value :: json where
  "manifest_value =
     JArr [JObj [(js ''name'', JStr (js ''search_ads''))], JObj [(js ''id'', JStr (js ''list_campaigns''))]]"

definition example_parse :: "jsstring \<Rightarrow> jsstring + json" where
  \<comment> \<open>\<^verbatim>\<open>JSON.parse\<close> on the texts of the examples\<close>
  "example_parse s =
     (if s = manifest_text then Inr manifest_value
      else if s = js ''{}'' then Inr (JObj [])
      else Inl (js ''Unexpected token''))"

definition example_world :: "(jsstring \<times> jsstring) list \<Rightarrow> (jsstring \<times> fsnode) list \<Rightarrow> reply \<Rightarrow> world" where
  \<comment> \<open>A process started in \<^verbatim>\<open>/repo\<close>, with the given environment variables, the given
      entries of \<^verbatim>\<open>/repo\<close>, and a network that answers every request the same.\<close>
  "example_world vars ents answer =
     \<lparr> env = map_of vars,
       cwd = js ''/repo'',
       fs_root = Dir [(js ''repo'', Dir ents)],
       https_request = (\<lambda>r. answer),
       JSON_parse = example_parse,
       fs_error_message = (\<lambda>e p. js ''cannot read '' @ p),
       stack_frames = (\<lambda>e. None),
       toUpperCase = ascii_toUpperCase \<rparr>"

definition vendored_dir :: "jsstring \<Rightarrow> jsstring \<times> fsnode" where
  "vendored_dir content = (js ''tooling'', Dir [(js ''mcp-tools.json'', File content)])"

definition scenario_entries :: "(jsstring \<times> fsnode) list" where
  \<comment> \<open>One tools page that mentions \<^verbatim>\<open>search_ads\<close> only, and an overview with a banned
      domain on its second line.\<close>
  "scenario_entries =
     [(js ''tools'', Dir [(js ''search.mdx'', File (js ''Use Search_Ads here.''))]),
      vendored_dir manifest_text,
      (js ''overview.mdx'',
         File (js ''Intro'' @ [CR, LF] @ js ''  See https://docs.adsgateway.io/guide for more.''))]"


definition repeated_entries :: "(jsstring \<times> fsnode) list" where
  \<comment> \<open>One line that holds a banned domain twice, and the other banned domain once.\<close>
  "repeated_entries =
     [(js ''notes.md'',
         File (js ''docs.adsgateway.io and docs.adsgateway.io, status.adsgateway.io''))]"

definition tools_dir :: "jsstring \<times> fsnode" where
  "tools_dir = (js ''tools'', Dir [(js ''search.mdx'', File (js ''Use Search_Ads here.''))])"

definition example_url :: jsstring where
  "example_url = js ''https://example.com/tools.json''"

definition empty_manifest_entries :: "(jsstring \<times> fsnode) list" where
  \<comment> \<open>The vendored manifest is the empty object.\<close>
  "empty_manifest_entries = [tools_dir, vendored_dir (js ''{}''), (js ''README.md'', File (js ''Intro''))]"



section \<open>Properties of the extractor\<close>

text \<open>The definitions a run of the extractor on a given manifest unfolds.\<close>

lemmas extract_defs = js_def trim_def is_js_space_def manifest_tools_def entry_value_def
  entry_name_def js_or_def extractToolNames_def spec_entry_name_def is_nonempty_string_def
  name_fields_def has_content_def Let_def

lemma set_set_from: "set (set_from xs seen) = set seen \<union> set xs"
  by (induction xs arbitrary: seen) auto

lemma distinct_set_from: "distinct seen \<Longrightarrow> distinct (set_from xs seen)"
  by (induction xs arbitrary: seen) auto

lemma collect_names_append:
  "collect_names ts names = names @ List.map_filter entry_name ts"
  by (induction ts arbitrary: names) (auto simp: List.map_filter_simps split: option.splits)

lemma count_list_distinct:
  "distinct xs \<Longrightarrow> count_list xs x = (if x \<in> set xs then 1 else 0)"
  by (induction xs) auto

text \<open>
  C6. For every manifest the extracted list has no duplicates, is sorted ascending in the
  lexicographic order of the code units, and holds exactly the names the entries push:
  a name pushed by several entries, under whichever key, occurs once. The list is a
  function of the manifest alone, so two runs on the same manifest give the same list.
\<close>

theorem extractToolNames_sorted_distinct:
  "distinct (extractToolNames m) \<and> sorted (extractToolNames m) \<and>
   set (extractToolNames m) = set (List.map_filter entry_name (manifest_tools m)) \<and>
   (\<forall>n. count_list (extractToolNames m) n =
       (if n \<in> set (List.map_filter entry_name (manifest_tools m)) then 1 else 0))"
proof -
  have d: "distinct (extractToolNames m)"
    by (simp add: extractToolNames_def distinct_set_from)
  have s: "sorted (extractToolNames m)"
    by (simp add: extractToolNames_def)
  have e: "set (extractToolNames m) = set (List.map_filter entry_name (manifest_tools m))"
    by (simp add: extractToolNames_def set_set_from collect_names_append)
  have c: "count_list (extractToolNames m) n =
       (if n \<in> set (List.map_filter entry_name (manifest_tools m)) then 1 else 0)" for n
    using d e by (simp add: count_list_distinct)
  show ?thesis using d s e c by blast
qed

theorem extractToolNames_sorted_distinct_witness:
  "extractToolNames (JArr [JObj [(js ''name'', JStr (js ''toolB''))],
                           JObj [(js ''name'', JStr (js ''toolA''))],
                           JObj [(js ''id'', JStr (js '' toolA ''))]])
     = [js ''toolA'', js ''toolB''] \<and>
   distinct [js ''toolA'', js ''toolB''] \<and> sorted [js ''toolA'', js ''toolB'']"
proof -
  let ?m = "JArr [JObj [(js ''name'', JStr (js ''toolB''))],
                  JObj [(js ''name'', JStr (js ''toolA''))],
                  JObj [(js ''id'', JStr (js '' toolA ''))]]"
  have v: "extractToolNames ?m = [js ''toolA'', js ''toolB'']"
    by (simp add: extract_defs)
  from extractToolNames_sorted_distinct [of ?m] show ?thesis
    unfolding v by blast
qed

section \<open>Strings and patterns\<close>

lemma startsWith_iff: "startsWith s d \<longleftrightarrow> (\<exists>post. s = d @ post)"
  by (induction s d rule: startsWith.induct) auto

lemma js_includes_iff: "js_includes s d \<longleftrightarrow> (\<exists>pre post. s = pre @ d @ post)"
proof (induction s)
  case Nil
  then show ?case by auto
next
  case (Cons c cs)
  show ?case
  proof
    assume "js_includes (c # cs) d"
    then consider "startsWith (c # cs) d" | "js_includes cs d" by auto
    then show "\<exists>pre post. c # cs = pre @ d @ post"
    proof cases
      case 1
      then obtain post where "c # cs = d @ post" by (auto simp: startsWith_iff)
      then have "c # cs = [] @ d @ post" by simp
      then show ?thesis by blast
    next
      case 2
      then obtain pre post where "cs = pre @ d @ post" using Cons.IH by auto
      then have "c # cs = (c # pre) @ d @ post" by simp
      then show ?thesis by blast
    qed
  next
    assume "\<exists>pre post. c # cs = pre @ d @ post"
    then obtain pre post where e: "c # cs = pre @ d @ post" by blast
    show "js_includes (c # cs) d"
    proof (cases pre)
      case Nil
      with e have "startsWith (c # cs) d" unfolding startsWith_iff by auto
      then show ?thesis by simp
    next
      case (Cons a pre')
      with e have "cs = pre' @ d @ post" by simp
      then have "js_includes cs d" using Cons.IH by blast
      then show ?thesis by simp
    qed
  qed
qed

lemma parse_literals_escapeRegExp: "parse_literals (escapeRegExp s) = Some (literal s)"
proof (induction s)
  case Nil
  show ?case by (simp add: escapeRegExp_def literal_def)
next
  case (Cons c s)
  show ?case
  proof (cases "c \<in> set syntax_characters")
    case True
    then have "escapeRegExp (c # s) = backslash # c # escapeRegExp s"
      by (simp add: escapeRegExp_def)
    with True Cons show ?thesis by (simp add: literal_def)
  next
    case False
    then have e: "escapeRegExp (c # s) = c # escapeRegExp s"
      by (simp add: escapeRegExp_def)
    have b: "c \<noteq> backslash" using False by (auto simp: syntax_characters_def)
    show ?thesis
    proof (cases "escapeRegExp s")
      case Nil
      with e False Cons show ?thesis by (simp add: literal_def)
    next
      case (Cons d ds)
      with e False b Cons.IH show ?thesis by (simp add: literal_def)
    qed
  qed
qed

lemma re_match_literal:
  "i \<le> length input \<Longrightarrow> re_match canon (literal s) input i =
     (if i + length s \<le> length input \<and> map canon (take (length s) (drop i input)) = map canon s
      then [i + length s] else [])"
proof (induction s arbitrary: i)
  case Nil
  then show ?case by (simp add: literal_def)
next
  case (Cons c s)
  have l: "literal (c # s) = Seq (Chr c) (literal s)" by (simp add: literal_def)
  show ?case
  proof (cases "i < length input")
    case False
    then show ?thesis using Cons.prems by (simp add: l)
  next
    case True
    then have d: "drop i input = input ! i # drop (Suc i) input"
      by (simp add: Cons_nth_drop_Suc)
    have "Suc i \<le> length input" using True by simp
    note ih = Cons.IH [OF this]
    show ?thesis using True by (auto simp: l ih d)
  qed
qed

lemma tool_regex_eq: "tool_regex name = Some (tool_pattern name)"
  by (simp add: tool_regex_def tool_pattern_def parse_literals_escapeRegExp)

lemma re_match_tail:
  "re_match canon (Alt (NotIn word_class) Eol) input k \<noteq> [] \<longleftrightarrow>
     (k < length input \<and> \<not> in_class canon word_class (input ! k)) \<or> k = length input"
  by simp

lemma re_match_body:
  assumes "j \<le> length input"
  shows "re_match canon (Seq (literal name) (Alt (NotIn word_class) Eol)) input j \<noteq> [] \<longleftrightarrow>
     j + length name \<le> length input \<and>
     map canon (take (length name) (drop j input)) = map canon name \<and>
     (j + length name = length input \<or> \<not> in_class canon word_class (input ! (j + length name)))"
  using assms by (auto simp: re_match_literal)

lemma re_match_tool_pattern:
  assumes "i \<le> length input"
  shows "re_match canon (tool_pattern name) input i \<noteq> [] \<longleftrightarrow>
     (i = 0 \<and> occurs_at canon name input 0) \<or>
     (i < length input \<and> occurs_at canon name input (Suc i))"
proof -
  define body where "body = Seq (literal name) (Alt (NotIn word_class) Eol)"
  have m: "re_match canon (tool_pattern name) input i =
      (if i = 0 then re_match canon body input 0 else []) @
      (if i < length input \<and> \<not> in_class canon word_class (input ! i) then re_match canon body input (Suc i) else [])"
    by (auto simp: tool_pattern_def body_def)
  have b0: "re_match canon body input 0 \<noteq> [] \<longleftrightarrow> occurs_at canon name input 0"
    unfolding body_def using re_match_body [of 0 input canon name] by (simp add: occurs_at_def)
  have b1: "re_match canon body input (Suc i) \<noteq> [] \<and> \<not> in_class canon word_class (input ! i)
      \<longleftrightarrow> occurs_at canon name input (Suc i)" if "i < length input"
    unfolding body_def using re_match_body [of "Suc i" input canon name] that by (auto simp: occurs_at_def)
  show ?thesis
  proof (cases "i < length input")
    case True
    from b1 [OF True] b0 show ?thesis unfolding m using True by auto
  next
    case False
    with b0 show ?thesis unfolding m by auto
  qed
qed

lemma re_test_tool_pattern:
  "re_test canon (tool_pattern name) input \<longleftrightarrow> (\<exists>j. occurs_at canon name input j)"
proof
  assume "re_test canon (tool_pattern name) input"
  then obtain i where "i \<in> set [0 ..< Suc (length input)]" "re_match canon (tool_pattern name) input i \<noteq> []"
    unfolding re_test_def list_ex_iff by blast
  moreover from this have "i \<le> length input" by auto
  ultimately show "\<exists>j. occurs_at canon name input j"
    using re_match_tool_pattern by blast
next
  assume "\<exists>j. occurs_at canon name input j"
  then obtain j where j: "occurs_at canon name input j" by blast
  then have le: "j \<le> length input" by (simp add: occurs_at_def)
  have "\<exists>i \<in> set [0 ..< Suc (length input)]. re_match canon (tool_pattern name) input i \<noteq> []"
  proof (cases j)
    case 0
    with j have "re_match canon (tool_pattern name) input 0 \<noteq> []"
      using re_match_tool_pattern [of 0 input canon name] by simp
    moreover have "0 \<in> set [0 ..< Suc (length input)]" by simp
    ultimately show ?thesis by blast
  next
    case (Suc i)
    with le have i: "i < length input" by simp
    with j Suc have "re_match canon (tool_pattern name) input i \<noteq> []"
      using re_match_tool_pattern [of i input canon name] by simp
    moreover have "i \<in> set [0 ..< Suc (length input)]" using i by simp
    ultimately show ?thesis by blast
  qed
  then show "re_test canon (tool_pattern name) input"
    unfolding re_test_def list_ex_iff .
qed

lemma mentions_iff_occurs: "mentions canon name input \<longleftrightarrow> (\<exists>j. occurs_at canon name input j)"
proof
  assume "mentions canon name input"
  then obtain pre mid post where t: "input = pre @ mid @ post"
    and c: "map canon mid = map canon name"
    and p: "pre = [] \<or> \<not> in_class canon word_class (last pre)"
    and q: "post = [] \<or> \<not> in_class canon word_class (hd post)"
    unfolding mentions_def by blast
  from c have n: "length mid = length name" by (rule map_eq_imp_length_eq)
  have 1: "take (length name) (drop (length pre) input) = mid" using t n by simp
  have 2: "length pre = 0 \<or> \<not> in_class canon word_class (input ! (length pre - 1))"
    using p t by (cases pre rule: rev_cases) (auto simp: nth_append)
  have 3: "length pre + length name = length input \<or>
           \<not> in_class canon word_class (input ! (length pre + length name))"
    using q t n by (cases post) (auto simp: nth_append)
  have "occurs_at canon name input (length pre)"
    unfolding occurs_at_def using 1 2 3 c t n by simp
  then show "\<exists>j. occurs_at canon name input j" ..
next
  assume "\<exists>j. occurs_at canon name input j"
  then obtain j where j: "occurs_at canon name input j" by blast
  let ?n = "length name"
  let ?pre = "take j input" and ?mid = "take ?n (drop j input)" and ?post = "drop (j + ?n) input"
  from j have le: "j + ?n \<le> length input" by (simp add: occurs_at_def)
  have t: "input = ?pre @ ?mid @ ?post"
    by (metis add.commute append_take_drop_id drop_drop)
  have c: "map canon ?mid = map canon name" using j by (simp add: occurs_at_def)
  have p: "?pre = [] \<or> \<not> in_class canon word_class (last ?pre)"
  proof (cases j)
    case 0 then show ?thesis by simp
  next
    case (Suc i)
    with le have "i < length input" by simp
    then have "last (take (Suc i) input) = input ! i"
      by (simp add: take_Suc_conv_app_nth)
    with j Suc show ?thesis by (simp add: occurs_at_def)
  qed
  have q: "?post = [] \<or> \<not> in_class canon word_class (hd ?post)"
  proof (cases "j + ?n = length input")
    case True then show ?thesis by simp
  next
    case False
    with le have "j + ?n < length input" by simp
    then have "hd (drop (j + ?n) input) = input ! (j + ?n)" by (simp add: hd_drop_conv_nth)
    with j False show ?thesis by (simp add: occurs_at_def)
  qed
  show "mentions canon name input"
    unfolding mentions_def using t c p q by blast
qed

lemma re_test_tool_pattern_mentions:
  "re_test canon (tool_pattern name) input \<longleftrightarrow> mentions canon name input"
  by (simp add: re_test_tool_pattern mentions_iff_occurs)

section \<open>One entry of the manifest\<close>

lemma trim_Nil: "trim [] = []"
  by (simp add: trim_def)

text \<open>
  C2, as the code has it. The value examined is the first truthy one among the fields
  \<^verbatim>\<open>name\<close>, \<^verbatim>\<open>tool\<close>, \<^verbatim>\<open>id\<close>: a field that is absent, null, false, zero or the empty
  string is passed over. The entry gives a name when that value is a string with
  something left after trimming, and is skipped otherwise. Where every truthy field is
  such a string, this is the first field that is a non-empty string, trimmed.
\<close>

theorem entry_name_first_truthy:
  "entry_name t =
     (case find truthy (name_fields t) of
        Some (Some (JStr s)) \<Rightarrow> if trim s = [] then None else Some (trim s)
      | _ \<Rightarrow> None) \<and>
   ((\<forall>v \<in> set (name_fields t). truthy v \<longrightarrow> has_content v) \<longrightarrow> entry_name t = spec_entry_name t)"
proof -
  have t: "truthy v \<longleftrightarrow> (case v of Some JNull \<Rightarrow> False | Some (JBool b) \<Rightarrow> b | Some (JNum x) \<Rightarrow> x \<noteq> 0
            | Some (JStr s) \<Rightarrow> s \<noteq> [] | Some (JArr xs) \<Rightarrow> True | Some (JObj kvs) \<Rightarrow> True | None \<Rightarrow> False)" for v
    by (cases v rule: truthy.cases) auto
  have a: "entry_name t =
     (case find truthy (name_fields t) of
        Some (Some (JStr s)) \<Rightarrow> if trim s = [] then None else Some (trim s)
      | _ \<Rightarrow> None)"
    unfolding entry_name_def entry_value_def js_or_def name_fields_def
    by (auto simp: t trim_Nil split: option.splits json.splits)
  have s: "is_nonempty_string v \<longleftrightarrow> truthy v" if "truthy v \<longrightarrow> has_content v" for v
    using that by (auto simp: t is_nonempty_string_def has_content_def split: option.splits json.splits)
  have b: "entry_name t = spec_entry_name t" if h: "\<forall>v \<in> set (name_fields t). truthy v \<longrightarrow> has_content v"
  proof -
    have f: "find is_nonempty_string (name_fields t) = find truthy (name_fields t)"
      using h s by (intro find_cong) auto
    have c: "has_content v" if "find truthy (name_fields t) = Some v" for v
      using that h by (auto simp: find_Some_iff)
    show ?thesis
      unfolding a spec_entry_name_def name_fields_def [symmetric] f
      using c by (auto simp: has_content_def split: option.splits json.splits)
  qed
  from a b show ?thesis by blast
qed

theorem entry_name_first_truthy_witness:
  "entry_name (JObj [(js ''name'', JStr []), (js ''tool'', JStr (js '' x ''))]) = Some (js ''x'') \<and>
   spec_entry_name (JObj [(js ''name'', JStr []), (js ''tool'', JStr (js '' x ''))]) = Some (js ''x'')"
proof -
  let ?t = "JObj [(js ''name'', JStr []), (js ''tool'', JStr (js '' x ''))]"
  have h: "\<forall>v \<in> set (name_fields ?t). truthy v \<longrightarrow> has_content v"
    by (simp add: extract_defs)
  have v: "spec_entry_name ?t = Some (js ''x'')"
    by (simp add: extract_defs)
  from entry_name_first_truthy [of ?t] h have "entry_name ?t = spec_entry_name ?t"
    by blast
  with v show ?thesis by simp
qed

text \<open>
  C2, as stated, fails: with the number 5 under \<^verbatim>\<open>name\<close> and the string \<^verbatim>\<open>x\<close> under
  \<^verbatim>\<open>tool\<close>, the first field that is a non-empty string is \<^verbatim>\<open>tool\<close>, but the entry is
  skipped and nothing is extracted.
\<close>

theorem entry_name_fallthrough_counterexample:
  "spec_entry_name (JObj [(js ''name'', JNum 5), (js ''tool'', JStr (js ''x''))]) = Some (js ''x'') \<and>
   entry_name (JObj [(js ''name'', JNum 5), (js ''tool'', JStr (js ''x''))]) = None \<and>
   extractToolNames (JArr [JObj [(js ''name'', JNum 5), (js ''tool'', JStr (js ''x''))]]) = []"
  by (simp add: extract_defs)

section \<open>Paths in a well-formed file system\<close>

lemma split_on_no_sep: "sep \<notin> set s \<Longrightarrow> split_on sep s = [s]"
  by (induction s) auto

lemma split_on_nonempty: "split_on sep s \<noteq> []"
  by (induction s) (auto split: list.splits)

lemma split_on_append:
  "split_on sep (a @ sep # b) = split_on sep a @ split_on sep b"
proof (induction a)
  case Nil
  show ?case by simp
next
  case (Cons c a)
  show ?case
  proof (cases "c = sep")
    case True
    with Cons show ?thesis by simp
  next
    case False
    obtain p ps where s: "split_on sep a = p # ps"
      using split_on_nonempty [of sep a] by (cases "split_on sep a") auto
    with False Cons show ?thesis by simp
  qed
qed

lemma split_on_segments:
  "list_all proper_name segs \<Longrightarrow>
   split_on slash (concat (map (\<lambda>s. slash # s) segs)) = [] # segs"
proof (induction segs rule: rev_induct)
  case Nil
  show ?case by simp
next
  case (snoc s segs)
  then have l: "list_all proper_name segs" by simp
  from snoc.prems have p: "slash \<notin> set s" by (simp add: proper_name_def)
  have "concat (map (\<lambda>s. slash # s) (segs @ [s])) = concat (map (\<lambda>s. slash # s) segs) @ slash # s"
    by simp
  moreover have "split_on slash s = [s]" using p by (rule split_on_no_sep)
  ultimately show ?case
    using snoc.IH [OF l] by (simp add: split_on_append)
qed

lemma split_on_render:
  "list_all proper_name segs \<Longrightarrow>
   filter (\<lambda>a. a \<noteq> []) (split_on slash (render segs)) = segs"
proof (cases "segs = []")
  case True
  then show ?thesis by (simp add: render_def slash_def)
next
  case False
  assume l: "list_all proper_name segs"
  have "filter (\<lambda>a. a \<noteq> []) segs = segs"
    using l by (induction segs) (auto simp: proper_name_def)
  with False l show ?thesis by (simp add: render_def split_on_segments)
qed

lemma render_inject:
  assumes "list_all proper_name a" "list_all proper_name b" "render a = render b"
  shows "a = b"
  using assms split_on_render by metis

lemma foldl_norm_step_proper:
  "list_all proper_name segs \<Longrightarrow> foldl (norm_step b) acc segs = acc @ segs"
  by (induction segs arbitrary: acc) (auto simp: norm_step_def proper_name_def)

lemma foldl_norm_step_skip:
  "foldl (norm_step b) acc ([] # segs) = foldl (norm_step b) acc segs"
  by (simp add: norm_step_def)

lemma join_with_segments:
  "segs \<noteq> [] \<Longrightarrow> slash # join_with [slash] segs = concat (map (\<lambda>s. slash # s) segs)"
  by (induction segs rule: induct_list012) auto

lemma path_join_render:
  assumes "list_all proper_name segs" "proper_name name"
  shows "path_join [render segs, name] = render (segs @ [name])"
proof -
  have n: "name \<noteq> []" "slash \<notin> set name"
    using assms(2) by (auto simp: proper_name_def)
  then have nl: "last name \<noteq> slash"
    using last_in_set by metis
  have r: "render segs \<noteq> []" by (simp add: render_def)
  let ?joined = "render segs @ slash # name"
  have j: "join_with [slash] (filter (\<lambda>a. a \<noteq> []) [render segs, name]) = ?joined"
    using n r by simp
  have l: "list_all proper_name (segs @ [name])" using assms by simp
  have s: "foldl (norm_step False) [] (split_on slash ?joined) = segs @ [name]"
  proof (cases "segs = []")
    case True
    then have "split_on slash ?joined = [[], [], name]"
      using n by (simp add: render_def split_on_no_sep)
    then show ?thesis using True assms(2) by (simp add: norm_step_def proper_name_def)
  next
    case False
    then have "?joined = concat (map (\<lambda>s. slash # s) (segs @ [name]))"
      by (simp add: render_def)
    then have "split_on slash ?joined = [] # (segs @ [name])"
      using split_on_segments [OF l] by simp
    then show ?thesis
      using foldl_norm_step_proper [OF l, of False "[]"] by (simp add: norm_step_def)
  qed
  obtain r where "render segs = slash # r"
    by (cases segs) (auto simp: render_def)
  then have a: "isAbsolute ?joined" by simp
  have t: "last ?joined \<noteq> slash" using n nl by simp
  have "concat (map (\<lambda>s. slash # s) (segs @ [name])) \<noteq> [slash]"
    using n by (cases segs) auto
  then have q: "join_with [slash] (segs @ [name]) \<noteq> []"
    using join_with_segments [of "segs @ [name]"] by auto
  have "normalize ?joined = slash # join_with [slash] (segs @ [name])"
    using a t q s by (simp add: normalize_def normalize_segments_def Let_def)
  also have "\<dots> = render (segs @ [name])"
    using join_with_segments [of "segs @ [name]"] by (simp add: render_def)
  finally show ?thesis
    unfolding path_join_def j Let_def by simp
qed

lemma descend_append:
  "descend n (as @ bs) = (case descend n as of None \<Rightarrow> None | Some m \<Rightarrow> descend m bs)"
proof (induction n as rule: descend.induct)
  case (1 n)
  show ?case by simp
next
  case (2 content c cs)
  show ?case by simp
next
  case (3 ents c cs)
  then show ?case by (cases "map_of ents c") auto
qed

lemma wf_node_descend:
  "wf_node n \<Longrightarrow> descend n cs = Some m \<Longrightarrow> wf_node m"
proof (induction n cs rule: descend.induct)
  case (1 n)
  then show ?case by simp
next
  case (2 content c cs)
  then show ?case by simp
next
  case (3 ents c cs)
  from "3.prems"(2) obtain k where k: "map_of ents c = Some k" and d: "descend k cs = Some m"
    by (cases "map_of ents c") auto
  from k have "(c, k) \<in> set ents" by (rule map_of_SomeD)
  with "3.prems"(1) have "wf_node k" by auto
  with "3.IH" k d show ?case by simp
qed

lemma fs_walk_descend:
  "list_all proper_name cs \<Longrightarrow> (fs_walk n anc cs = Inr m) = (descend n cs = Some m)"
proof (induction cs arbitrary: n anc)
  case Nil
  show ?case by simp
next
  case (Cons c cs)
  from Cons.prems have l: "list_all proper_name cs" by simp
  from Cons.prems have "proper_name c" by simp
  then have c: "c \<noteq> []" "c \<noteq> js ''.''" "c \<noteq> js ''..''"
    by (simp_all add: proper_name_def)
  show ?case
  proof (cases n)
    case (File content)
    then show ?thesis by simp
  next
    case (Dir ents)
    show ?thesis
    proof (cases "map_of ents c")
      case None
      with Dir c show ?thesis by simp
    next
      case (Some k)
      with Dir c Cons.IH [OF l] show ?thesis by simp
    qed
  qed
qed

lemma fs_lookup_render:
  assumes "fs_root w = Dir es" "list_all proper_name segs"
  shows "fs_lookup w (render segs) = fs_walk (fs_root w) [] segs"
proof -
  obtain r where r: "render segs = slash # r"
    by (cases segs) (auto simp: render_def)
  have "fs_walk (Dir es) [] (split_on slash (render segs)) = fs_walk (Dir es) [] segs"
  proof (cases "segs = []")
    case True
    then show ?thesis by (simp add: render_def)
  next
    case False
    with assms(2) show ?thesis by (simp add: render_def split_on_segments)
  qed
  then show ?thesis using r assms(1) by (simp add: fs_lookup_def)
qed

lemma fs_lookup_root_Dir:
  assumes "fs_lookup w (render segs) = Inr n"
  shows "\<exists>es. fs_root w = Dir es"
proof (cases "fs_root w")
  case (Dir es)
  then show ?thesis by blast
next
  case (File content)
  obtain r where r: "render segs = slash # r"
    by (cases segs) (auto simp: render_def)
  obtain c cs where "split_on slash (render segs) = c # cs"
    using split_on_nonempty [of slash "render segs"] by (cases "split_on slash (render segs)") auto
  with File r assms show ?thesis by (simp add: fs_lookup_def)
qed

lemma map_of_Cons_other:
  "k \<noteq> name \<Longrightarrow> map_of ((name, x) # ents) k = map_of ents k"
  by simp

lemma tree_files_shape:
  assumes "wf_node (Dir ents)" "list_all proper_name segs" "(p, c) \<in> set (tree_files (render segs) ents)"
  shows "\<exists>more. more \<noteq> [] \<and> list_all proper_name more \<and> hd more \<in> fst ` set ents \<and>
            p = render (segs @ more) \<and> descend (Dir ents) more = Some (File c)"
  using assms
proof (induction "render segs" ents arbitrary: segs rule: tree_files.induct)
  case 1
  then show ?case by simp
next
  case (2 name content ents)
  from "2.prems"(1) have pn: "proper_name name" and nn: "name \<notin> fst ` set ents"
    and wf: "wf_node (Dir ents)" by auto
  from "2.prems"(3) consider "p = path_join [render segs, name] \<and> c = content"
    | "(p, c) \<in> set (tree_files (render segs) ents)" by auto
  then show ?case
  proof cases
    case 1
    then have "p = render (segs @ [name])"
      using path_join_render [OF "2.prems"(2) pn] by simp
    moreover have "descend (Dir ((name, File content) # ents)) [name] = Some (File c)"
      using 1 by simp
    ultimately show ?thesis using pn by (intro exI [of _ "[name]"]) simp
  next
    case 2
    from "2.hyps" [OF refl wf "2.prems"(2) 2]
    obtain more where m: "more \<noteq> []" "list_all proper_name more" "hd more \<in> fst ` set ents"
      "p = render (segs @ more)" "descend (Dir ents) more = Some (File c)" by blast
    from m(3) nn have ne: "hd more \<noteq> name" by auto
    obtain k ks where ks: "more = k # ks" using m(1) by (cases more) auto
    with ne m(5) have "descend (Dir ((name, File content) # ents)) more = Some (File c)"
      by simp
    with m show ?thesis by (intro exI [of _ more]) auto
  qed
next
  case (3 name sub ents)
  from "3.prems"(1) have pn: "proper_name name" and nn: "name \<notin> fst ` set ents"
    and wf: "wf_node (Dir ents)" and wfs: "wf_node (Dir sub)" by auto
  have pj: "path_join [render segs, name] = render (segs @ [name])"
    using path_join_render [OF "3.prems"(2) pn] .
  have l': "list_all proper_name (segs @ [name])" using "3.prems"(2) pn by simp
  from "3.prems"(3) consider "(p, c) \<in> set (tree_files (render (segs @ [name])) sub)"
    | "(p, c) \<in> set (tree_files (render segs) ents)" by (auto simp: pj)
  then show ?case
  proof cases
    case 1
    from "3.hyps"(1) [OF pj wfs l' 1]
    obtain more where m: "more \<noteq> []" "list_all proper_name more"
      "p = render ((segs @ [name]) @ more)" "descend (Dir sub) more = Some (File c)" by blast
    have "descend (Dir ((name, Dir sub) # ents)) (name # more) = Some (File c)"
      using m(4) by simp
    with m pn show ?thesis by (intro exI [of _ "name # more"]) simp
  next
    case 2
    from "3.hyps"(2) [OF refl wf "3.prems"(2) 2]
    obtain more where m: "more \<noteq> []" "list_all proper_name more" "hd more \<in> fst ` set ents"
      "p = render (segs @ more)" "descend (Dir ents) more = Some (File c)" by blast
    from m(3) nn have ne: "hd more \<noteq> name" by auto
    obtain k ks where ks: "more = k # ks" using m(1) by (cases more) auto
    with ne m(5) have "descend (Dir ((name, Dir sub) # ents)) more = Some (File c)"
      by simp
    with m show ?thesis by (intro exI [of _ more]) auto
  qed
qed

lemma tree_paths_tree_files: "tree_paths dir ents = map fst (tree_files dir ents)"
  by (induction dir ents rule: tree_files.induct) auto

lemma tree_files_path_shape:
  assumes "wf_node (Dir ents)" "list_all proper_name segs" "p \<in> fst ` set (tree_files (render segs) ents)"
  shows "\<exists>more. more \<noteq> [] \<and> list_all proper_name more \<and> hd more \<in> fst ` set ents \<and>
            p = render (segs @ more)"
proof -
  from assms(3) obtain c where "(p, c) \<in> set (tree_files (render segs) ents)" by auto
  from tree_files_shape [OF assms(1,2) this] show ?thesis by blast
qed

lemma render_append_inject:
  assumes "list_all proper_name segs" "list_all proper_name a" "list_all proper_name b"
    "render (segs @ a) = render (segs @ b)"
  shows "a = b"
proof -
  have "segs @ a = segs @ b"
    using assms by (intro render_inject) auto
  then show ?thesis by simp
qed

lemma distinct_tree_files:
  assumes "wf_node (Dir ents)" "list_all proper_name segs"
  shows "distinct (map fst (tree_files (render segs) ents))"
  using assms
proof (induction "render segs" ents arbitrary: segs rule: tree_files.induct)
  case 1
  then show ?case by simp
next
  case (2 name content ents)
  from "2.prems"(1) have pn: "proper_name name" and nn: "name \<notin> fst ` set ents"
    and wf: "wf_node (Dir ents)" by auto
  have pj: "path_join [render segs, name] = render (segs @ [name])"
    using path_join_render [OF "2.prems"(2) pn] .
  have "render (segs @ [name]) \<notin> fst ` set (tree_files (render segs) ents)"
  proof
    assume "render (segs @ [name]) \<in> fst ` set (tree_files (render segs) ents)"
    from tree_files_path_shape [OF wf "2.prems"(2) this]
    obtain more where m: "more \<noteq> []" "list_all proper_name more" "hd more \<in> fst ` set ents"
      "render (segs @ [name]) = render (segs @ more)" by blast
    have "[name] = more"
      using render_append_inject [OF "2.prems"(2) _ m(2) m(4)] pn by simp
    then have "hd more = name" by auto
    with m(3) nn show False by simp
  qed
  with "2.hyps" [OF refl wf "2.prems"(2)] show ?case by (simp add: pj)
next
  case (3 name sub ents)
  from "3.prems"(1) have pn: "proper_name name" and nn: "name \<notin> fst ` set ents"
    and wf: "wf_node (Dir ents)" and wfs: "wf_node (Dir sub)" by auto
  have pj: "path_join [render segs, name] = render (segs @ [name])"
    using path_join_render [OF "3.prems"(2) pn] .
  have l': "list_all proper_name (segs @ [name])" using "3.prems"(2) pn by simp
  have d1: "distinct (map fst (tree_files (render (segs @ [name])) sub))"
    using "3.hyps"(1) [OF pj wfs l'] .
  have d2: "distinct (map fst (tree_files (render segs) ents))"
    using "3.hyps"(2) [OF refl wf "3.prems"(2)] .
  have dj: "fst ` set (tree_files (render (segs @ [name])) sub) \<inter>
            fst ` set (tree_files (render segs) ents) = {}"
  proof (rule ccontr)
    assume "\<not> ?thesis"
    then obtain p where p1: "p \<in> fst ` set (tree_files (render (segs @ [name])) sub)"
      and p2: "p \<in> fst ` set (tree_files (render segs) ents)" by blast
    from tree_files_path_shape [OF wfs l' p1]
    obtain a where a: "a \<noteq> []" "list_all proper_name a" "p = render ((segs @ [name]) @ a)" by blast
    from tree_files_path_shape [OF wf "3.prems"(2) p2]
    obtain b where b: "b \<noteq> []" "list_all proper_name b" "hd b \<in> fst ` set ents"
      "p = render (segs @ b)" by blast
    have "render (segs @ (name # a)) = render (segs @ b)" using a(3) b(4) by simp
    then have "name # a = b"
      using render_append_inject [OF "3.prems"(2) _ b(2)] pn a(2) by simp
    then have "hd b = name" by auto
    with b(3) nn show False by simp
  qed
  from d1 d2 dj show ?case by (simp add: pj)
qed

lemma tree_files_readable:
  assumes "wf_fs w" "list_all proper_name segs" "fs_lookup w (render segs) = Inr (Dir ents)"
  shows "\<forall>(p, c) \<in> set (tree_files (render segs) ents). readText w p = Inr c"
    and "distinct (map fst (tree_files (render segs) ents))"
    and "wf_node (Dir ents)"
proof -
  from fs_lookup_root_Dir [OF assms(3)] obtain es where r: "fs_root w = Dir es" by blast
  have "fs_walk (fs_root w) [] segs = Inr (Dir ents)"
    using assms(3) fs_lookup_render [OF r assms(2)] by simp
  then have d: "descend (fs_root w) segs = Some (Dir ents)"
    using fs_walk_descend [OF assms(2)] by simp
  from assms(1) have "wf_node (fs_root w)" by (simp add: wf_fs_def)
  from wf_node_descend [OF this d] show wf: "wf_node (Dir ents)" .
  from distinct_tree_files [OF wf assms(2)]
  show "distinct (map fst (tree_files (render segs) ents))" .
  show "\<forall>(p, c) \<in> set (tree_files (render segs) ents). readText w p = Inr c"
  proof (clarify)
    fix p c assume "(p, c) \<in> set (tree_files (render segs) ents)"
    from tree_files_shape [OF wf assms(2) this]
    obtain more where m: "list_all proper_name more" "p = render (segs @ more)"
      "descend (Dir ents) more = Some (File c)" by blast
    have l: "list_all proper_name (segs @ more)" using assms(2) m(1) by simp
    have "descend (fs_root w) (segs @ more) = Some (File c)"
      using d m(3) by (simp add: descend_append)
    then have "fs_walk (fs_root w) [] (segs @ more) = Inr (File c)"
      using fs_walk_descend [OF l] by simp
    then have "fs_lookup w p = Inr (File c)"
      using fs_lookup_render [OF r l] m(2) by simp
    then show "readText w p = Inr c" by (simp add: readText_def)
  qed
qed

section \<open>The walk and the scanner\<close>

lemma walk_entries_tree_paths:
  "walk_entries P dir ents = filter P (tree_paths dir ents)"
  by (induction dir ents rule: tree_paths.induct) auto

lemma scan_domains_eq:
  "scan_domains file i line ds hits = hits @ map (make_hit file i line) (filter (js_includes line) ds)"
  by (induction ds arbitrary: hits) (auto simp: make_hit_def)

lemma scan_lines_eq:
  "scan_lines f ls i hs =
     hs @ concat (map (\<lambda>k. line_hits f k (ls ! k)) [i ..< length ls])"
proof (induction f ls i hs rule: scan_lines.induct)
  case (1 f ls i hs)
  show ?case
  proof (cases "i < length ls")
    case True
    then have u: "[i ..< length ls] = i # [Suc i ..< length ls]"
      by (simp add: upt_conv_Cons)
    show ?thesis
      using True 1 [OF True]
      by (subst scan_lines.simps) (simp add: u scan_domains_eq line_hits_def)
  next
    case False
    then show ?thesis by (subst scan_lines.simps) simp
  qed
qed

lemma scan_files_eq:
  "\<forall>f \<in> set files. readText w f = Inr (content f) \<Longrightarrow>
   scan_files w files hits = Inr (hits @ concat (map (\<lambda>f. file_hits f (content f)) files))"
  by (induction files arbitrary: hits) (auto simp: scan_lines_eq file_hits_def)

lemma findBannedDomains_eq:
  assumes "fs_lookup w repoRoot = Inr (Dir ents)"
    and "\<forall>f \<in> set (filter docs_predicate (tree_paths repoRoot ents)). readText w f = Inr (content f)"
  shows "findBannedDomains w repoRoot =
     Inr (concat (map (\<lambda>f. file_hits f (content f)) (filter docs_predicate (tree_paths repoRoot ents))))"
  using assms scan_files_eq [of "filter docs_predicate (tree_paths repoRoot ents)" w content "[]"]
  by (simp add: findBannedDomains_def walkFiles_def walk_entries_tree_paths)

lemma endsWith_iff: "endsWith s d \<longleftrightarrow> (\<exists>pre. s = pre @ d)"
proof
  assume "endsWith s d"
  then have "s = take (length s - length d) s @ d"
    by (metis append_take_drop_id endsWith_def)
  then show "\<exists>pre. s = pre @ d" ..
next
  assume "\<exists>pre. s = pre @ d"
  then show "endsWith s d" by (auto simp: endsWith_def)
qed

lemma split_lines_no_LF: "LF \<notin> set a \<Longrightarrow> split_lines a = [a]"
  by (induction a rule: split_lines.induct) auto

lemma split_lines_LF_Cons: "split_lines (LF # b) = [] # split_lines b"
  by (cases b) auto

lemma CR_neq_LF: "CR \<noteq> LF"
  by (simp add: CR_def LF_def)

lemma split_lines_LF:
  "LF \<notin> set a \<Longrightarrow>
   split_lines (a @ LF # b) = (if a \<noteq> [] \<and> last a = CR then butlast a else a) # split_lines b"
proof (induction a rule: split_lines.induct)
  case 1
  show ?case by (simp add: split_lines_LF_Cons)
next
  case (2 c)
  then show ?case by (auto simp: split_lines_LF_Cons CR_neq_LF)
next
  case (3 c d cs)
  then show ?case by (auto simp: split_lines_LF_Cons CR_neq_LF)
qed

lemma set_file_hits:
  "h \<in> set (file_hits f content) \<longleftrightarrow>
     (\<exists>i d. i < length (split_lines content) \<and> d \<in> set banned \<and>
        js_includes (split_lines content ! i) d \<and>
        h = make_hit f i (split_lines content ! i) d)"
  by (auto simp: file_hits_def line_hits_def)

lemma findBannedDomains_hits_readable:
  assumes "fs_lookup w repoRoot = Inr (Dir ents)"
    and "\<forall>f \<in> set (tree_paths repoRoot ents). docs_predicate f \<longrightarrow> readText w f = Inr (content f)"
  shows "\<exists>hits. findBannedDomains w repoRoot = Inr hits \<and>
      (\<forall>h. h \<in> set hits \<longleftrightarrow>
         (\<exists>f i d pre post. f \<in> set (tree_paths repoRoot ents) \<and>
            ((\<exists>p. f = p @ js ''.mdx'') \<or> (\<exists>p. f = p @ js ''.md'') \<or> basename f = js ''docs.json'') \<and>
            i < length (split_lines (content f)) \<and> d \<in> set banned \<and>
            split_lines (content f) ! i = pre @ d @ post \<and>
            h = \<lparr> hit_file = f, hit_line = i + 1, hit_domain = d,
                  hit_text = trim (split_lines (content f) ! i) \<rparr>)) \<and>
      (\<forall>f. (\<forall>line \<in> set (split_lines (content f)). \<forall>d \<in> set banned. \<not> js_includes line d)
           \<longrightarrow> (\<forall>h \<in> set hits. hit_file h \<noteq> f))"
proof -
  let ?files = "filter docs_predicate (tree_paths repoRoot ents)"
  let ?hits = "concat (map (\<lambda>f. file_hits f (content f)) ?files)"
  have r: "\<forall>f \<in> set ?files. readText w f = Inr (content f)"
    using assms(2) by simp
  have e: "findBannedDomains w repoRoot = Inr ?hits"
    using findBannedDomains_eq [OF assms(1) r] .
  have m: "h \<in> set ?hits \<longleftrightarrow>
         (\<exists>f i d pre post. f \<in> set (tree_paths repoRoot ents) \<and>
            ((\<exists>p. f = p @ js ''.mdx'') \<or> (\<exists>p. f = p @ js ''.md'') \<or> basename f = js ''docs.json'') \<and>
            i < length (split_lines (content f)) \<and> d \<in> set banned \<and>
            split_lines (content f) ! i = pre @ d @ post \<and>
            h = \<lparr> hit_file = f, hit_line = i + 1, hit_domain = d,
                  hit_text = trim (split_lines (content f) ! i) \<rparr>)" for h
  proof -
    have "h \<in> set ?hits \<longleftrightarrow>
        (\<exists>f. f \<in> set (tree_paths repoRoot ents) \<and> docs_predicate f \<and> h \<in> set (file_hits f (content f)))"
      by auto
    also have "\<dots> \<longleftrightarrow> (\<exists>f i d. f \<in> set (tree_paths repoRoot ents) \<and> docs_predicate f \<and>
        i < length (split_lines (content f)) \<and> d \<in> set banned \<and>
        js_includes (split_lines (content f) ! i) d \<and>
        h = make_hit f i (split_lines (content f) ! i) d)"
      unfolding set_file_hits by blast
    also have "\<dots> \<longleftrightarrow> (\<exists>f i d pre post. f \<in> set (tree_paths repoRoot ents) \<and>
            ((\<exists>p. f = p @ js ''.mdx'') \<or> (\<exists>p. f = p @ js ''.md'') \<or> basename f = js ''docs.json'') \<and>
            i < length (split_lines (content f)) \<and> d \<in> set banned \<and>
            split_lines (content f) ! i = pre @ d @ post \<and>
            h = \<lparr> hit_file = f, hit_line = i + 1, hit_domain = d,
                  hit_text = trim (split_lines (content f) ! i) \<rparr>)"
      unfolding js_includes_iff docs_predicate_def endsWith_iff make_hit_def by blast
    finally show ?thesis .
  qed
  have z: "\<forall>h \<in> set ?hits. hit_file h \<noteq> f"
    if "\<forall>line \<in> set (split_lines (content f)). \<forall>d \<in> set banned. \<not> js_includes line d" for f
  proof
    fix h assume "h \<in> set ?hits"
    then obtain g where g: "h \<in> set (file_hits g (content g))" by auto
    then have "hit_file h = g" by (auto simp: set_file_hits make_hit_def)
    moreover have "g \<noteq> f"
    proof
      assume "g = f"
      with g obtain i d where "i < length (split_lines (content f))" "d \<in> set banned"
        "js_includes (split_lines (content f) ! i) d"
        by (auto simp: set_file_hits)
      with that show False using nth_mem by blast
    qed
    ultimately show "hit_file h \<noteq> f" by simp
  qed
  from e m z show ?thesis by blast
qed

lemma length_filter_concat:
  "length (filter P (concat xss)) = sum_list (map (\<lambda>xs. length (filter P xs)) xss)"
  by (induction xss) auto

lemma sum_list_only:
  "distinct xs \<Longrightarrow>
   sum_list (map (\<lambda>x. if x = a then c x else (0::nat)) xs) = (if a \<in> set xs then c a else 0)"
  by (induction xs) auto

lemma length_filter_eq_filter:
  "distinct xs \<Longrightarrow>
   length (filter (\<lambda>x. x = d) (filter P xs)) = (if d \<in> set xs \<and> P d then 1 else 0)"
  by (induction xs) auto

lemma distinct_banned: "distinct banned"
  by (simp add: banned_def js_def)

lemma count_line_hits:
  "length (filter (\<lambda>h. hit_file h = f \<and> hit_line h = i \<and> hit_domain h = d) (line_hits g k line)) =
     (if g = f \<and> k + 1 = i \<and> d \<in> set banned \<and> js_includes line d then 1 else 0)"
proof -
  have 1: "length (filter (\<lambda>x. x = d) (filter (js_includes line) banned)) =
      (if d \<in> set banned \<and> js_includes line d then 1 else 0)"
    using distinct_banned by (rule length_filter_eq_filter)
  have "length (filter (\<lambda>h. hit_file h = f \<and> hit_line h = i \<and> hit_domain h = d) (line_hits g k line))
      = length (filter (\<lambda>x. g = f \<and> k + 1 = i \<and> x = d) (filter (js_includes line) banned))"
    by (simp add: line_hits_def make_hit_def filter_map comp_def)
  also have "\<dots> = (if g = f \<and> k + 1 = i
      then length (filter (\<lambda>x. x = d) (filter (js_includes line) banned)) else 0)"
    by (auto simp: filter_empty_conv)
  finally show ?thesis using 1 by simp
qed

lemma count_file_hits:
  "length (filter (\<lambda>h. hit_file h = f \<and> hit_line h = i \<and> hit_domain h = d) (file_hits g content)) =
     (if g = f \<and> 0 < i \<and> i \<le> length (split_lines content) \<and> d \<in> set banned \<and>
         js_includes (split_lines content ! (i - 1)) d then 1 else 0)"
proof -
  let ?ls = "split_lines content"
  let ?c = "\<lambda>k. if g = f \<and> d \<in> set banned \<and> js_includes (?ls ! k) d then (1::nat) else 0"
  have "length (filter (\<lambda>h. hit_file h = f \<and> hit_line h = i \<and> hit_domain h = d) (file_hits g content))
      = sum_list (map (\<lambda>k. if k = i - 1 then (if 0 < i then ?c k else 0) else 0) [0 ..< length ?ls])"
    unfolding file_hits_def length_filter_concat map_map comp_def count_line_hits
    by (intro arg_cong [where f = sum_list] map_cong) auto
  also have "\<dots> = (if i - 1 \<in> set [0 ..< length ?ls] then (if 0 < i then ?c (i - 1) else 0) else 0)"
    by (rule sum_list_only) simp
  also have "\<dots> = (if g = f \<and> 0 < i \<and> i \<le> length ?ls \<and> d \<in> set banned \<and>
         js_includes (?ls ! (i - 1)) d then 1 else 0)"
    by auto
  finally show ?thesis .
qed

lemma findBannedDomains_one_hit_readable:
  assumes "fs_lookup w repoRoot = Inr (Dir ents)"
    and "\<forall>f \<in> set (tree_paths repoRoot ents). docs_predicate f \<longrightarrow> readText w f = Inr (content f)"
    and "distinct (filter docs_predicate (tree_paths repoRoot ents))"
  shows "\<exists>hits. findBannedDomains w repoRoot = Inr hits \<and>
      (\<forall>f i d. length (filter (\<lambda>h. hit_file h = f \<and> hit_line h = i \<and> hit_domain h = d) hits) =
         (if f \<in> set (tree_paths repoRoot ents) \<and> docs_predicate f \<and>
             0 < i \<and> i \<le> length (split_lines (content f)) \<and> d \<in> set banned \<and>
             js_includes (split_lines (content f) ! (i - 1)) d
          then 1 else 0))"
proof -
  let ?files = "filter docs_predicate (tree_paths repoRoot ents)"
  let ?hits = "concat (map (\<lambda>f. file_hits f (content f)) ?files)"
  have r: "\<forall>f \<in> set ?files. readText w f = Inr (content f)"
    using assms(2) by simp
  have e: "findBannedDomains w repoRoot = Inr ?hits"
    using findBannedDomains_eq [OF assms(1) r] .
  have c: "length (filter (\<lambda>h. hit_file h = f \<and> hit_line h = i \<and> hit_domain h = d) ?hits) =
         (if f \<in> set (tree_paths repoRoot ents) \<and> docs_predicate f \<and>
             0 < i \<and> i \<le> length (split_lines (content f)) \<and> d \<in> set banned \<and>
             js_includes (split_lines (content f) ! (i - 1)) d
          then 1 else 0)" for f i d
  proof -
    let ?k = "\<lambda>g. if 0 < i \<and> i \<le> length (split_lines (content g)) \<and> d \<in> set banned \<and>
         js_includes (split_lines (content g) ! (i - 1)) d then (1::nat) else 0"
    have "length (filter (\<lambda>h. hit_file h = f \<and> hit_line h = i \<and> hit_domain h = d) ?hits)
        = sum_list (map (\<lambda>g. if g = f then ?k g else 0) ?files)"
      unfolding length_filter_concat map_map comp_def count_file_hits
      by (intro arg_cong [where f = sum_list] map_cong) auto
    also have "\<dots> = (if f \<in> set ?files then ?k f else 0)"
      using assms(3) by (rule sum_list_only)
    finally show ?thesis by auto
  qed
  from e c show ?thesis by blast
qed

lemma wf_content:
  assumes "wf_fs w" "list_all proper_name segs" "fs_lookup w (render segs) = Inr (Dir ents)"
  obtains content where
    "\<And>p c. (p, c) \<in> set (tree_files (render segs) ents) \<Longrightarrow> content p = c"
    "\<forall>f \<in> set (tree_paths (render segs) ents). readText w f = Inr (content f)"
proof -
  let ?files = "tree_files (render segs) ents"
  let ?content = "\<lambda>p. the (map_of ?files p)"
  note r = tree_files_readable [OF assms]
  have 1: "?content p = c" if "(p, c) \<in> set ?files" for p c
    using map_of_is_SomeI [OF r(2) that] by simp
  have 2: "\<forall>f \<in> set (tree_paths (render segs) ents). readText w f = Inr (?content f)"
  proof
    fix f assume "f \<in> set (tree_paths (render segs) ents)"
    then obtain c where c: "(f, c) \<in> set ?files"
      by (auto simp: tree_paths_tree_files)
    with r(1) have "readText w f = Inr c" by auto
    with 1 [OF c] show "readText w f = Inr (?content f)" by simp
  qed
  from that [of ?content] 1 2 show thesis by blast
qed

text \<open>
  C4. Let the file system be well formed and the repository root an absolute path that
  names a directory. Then the scanner returns a list of hits, and a record is in the
  list exactly when it carries the path of a file below the root whose path ends in
  \<^verbatim>\<open>.mdx\<close> or \<^verbatim>\<open>.md\<close> or whose base name is \<^verbatim>\<open>docs.json\<close>, the number (counted from 1)
  of a line of the file's text split at LF and CRLF, a banned domain that occurs in that
  line as a substring, and the trimmed line. No hit names a file none of whose lines
  contains a banned domain. What the split yields is described by \<open>split_lines_no_LF\<close>
  and \<open>split_lines_LF\<close>.
\<close>

theorem findBannedDomains_hits:
  assumes "wf_fs w" "list_all proper_name segs" "fs_lookup w (render segs) = Inr (Dir ents)"
  shows "\<exists>hits. findBannedDomains w (render segs) = Inr hits \<and>
      (\<forall>h. h \<in> set hits \<longleftrightarrow>
         (\<exists>f content i d pre post. (f, content) \<in> set (tree_files (render segs) ents) \<and>
            ((\<exists>p. f = p @ js ''.mdx'') \<or> (\<exists>p. f = p @ js ''.md'') \<or> basename f = js ''docs.json'') \<and>
            i < length (split_lines content) \<and> d \<in> set banned \<and>
            split_lines content ! i = pre @ d @ post \<and>
            h = \<lparr> hit_file = f, hit_line = i + 1, hit_domain = d,
                  hit_text = trim (split_lines content ! i) \<rparr>)) \<and>
      (\<forall>f content. (f, content) \<in> set (tree_files (render segs) ents) \<and>
           (\<forall>line \<in> set (split_lines content). \<forall>d \<in> set banned. \<not> js_includes line d)
           \<longrightarrow> (\<forall>h \<in> set hits. hit_file h \<noteq> f))"
proof -
  let ?R = "render segs"
  from wf_content [OF assms] obtain content where
    c: "\<And>p c. (p, c) \<in> set (tree_files ?R ents) \<Longrightarrow> content p = c"
    and r: "\<forall>f \<in> set (tree_paths ?R ents). readText w f = Inr (content f)"
    by blast
  have r': "\<forall>f \<in> set (tree_paths ?R ents). docs_predicate f \<longrightarrow> readText w f = Inr (content f)"
    using r by simp
  from findBannedDomains_hits_readable [OF assms(3) r'] obtain hits where
    e: "findBannedDomains w ?R = Inr hits"
    and m: "\<And>h. h \<in> set hits \<longleftrightarrow>
         (\<exists>f i d pre post. f \<in> set (tree_paths ?R ents) \<and>
            ((\<exists>p. f = p @ js ''.mdx'') \<or> (\<exists>p. f = p @ js ''.md'') \<or> basename f = js ''docs.json'') \<and>
            i < length (split_lines (content f)) \<and> d \<in> set banned \<and>
            split_lines (content f) ! i = pre @ d @ post \<and>
            h = \<lparr> hit_file = f, hit_line = i + 1, hit_domain = d,
                  hit_text = trim (split_lines (content f) ! i) \<rparr>)"
    and z: "\<And>f. (\<forall>line \<in> set (split_lines (content f)). \<forall>d \<in> set banned. \<not> js_includes line d)
           \<Longrightarrow> (\<forall>h \<in> set hits. hit_file h \<noteq> f)"
    by blast
  have p: "f \<in> set (tree_paths ?R ents) \<longleftrightarrow> (\<exists>c. (f, c) \<in> set (tree_files ?R ents))" for f
    by (force simp: tree_paths_tree_files)
  have M: "\<forall>h. h \<in> set hits \<longleftrightarrow>
         (\<exists>f content i d pre post. (f, content) \<in> set (tree_files ?R ents) \<and>
            ((\<exists>p. f = p @ js ''.mdx'') \<or> (\<exists>p. f = p @ js ''.md'') \<or> basename f = js ''docs.json'') \<and>
            i < length (split_lines content) \<and> d \<in> set banned \<and>
            split_lines content ! i = pre @ d @ post \<and>
            h = \<lparr> hit_file = f, hit_line = i + 1, hit_domain = d,
                  hit_text = trim (split_lines content ! i) \<rparr>)"
  proof (rule allI, rule iffI)
    fix h assume "h \<in> set hits"
    then obtain f i d pre post where o: "f \<in> set (tree_paths ?R ents)"
      "(\<exists>p. f = p @ js ''.mdx'') \<or> (\<exists>p. f = p @ js ''.md'') \<or> basename f = js ''docs.json''"
      "i < length (split_lines (content f))" "d \<in> set banned"
      "split_lines (content f) ! i = pre @ d @ post"
      "h = \<lparr> hit_file = f, hit_line = i + 1, hit_domain = d,
                  hit_text = trim (split_lines (content f) ! i) \<rparr>"
      unfolding m by (elim exE conjE)
    from o(1) obtain k where k: "(f, k) \<in> set (tree_files ?R ents)" unfolding p by (elim exE)
    from c [OF k] have ck: "content f = k" .
    show "\<exists>f content i d pre post. (f, content) \<in> set (tree_files ?R ents) \<and>
            ((\<exists>p. f = p @ js ''.mdx'') \<or> (\<exists>p. f = p @ js ''.md'') \<or> basename f = js ''docs.json'') \<and>
            i < length (split_lines content) \<and> d \<in> set banned \<and>
            split_lines content ! i = pre @ d @ post \<and>
            h = \<lparr> hit_file = f, hit_line = i + 1, hit_domain = d,
                  hit_text = trim (split_lines content ! i) \<rparr>"
      using k o(2-) unfolding ck
      by (intro exI [of _ f] exI [of _ k] exI [of _ i] exI [of _ d] exI [of _ pre] exI [of _ post] conjI)
  next
    fix h
    assume "\<exists>f content i d pre post. (f, content) \<in> set (tree_files ?R ents) \<and>
            ((\<exists>p. f = p @ js ''.mdx'') \<or> (\<exists>p. f = p @ js ''.md'') \<or> basename f = js ''docs.json'') \<and>
            i < length (split_lines content) \<and> d \<in> set banned \<and>
            split_lines content ! i = pre @ d @ post \<and>
            h = \<lparr> hit_file = f, hit_line = i + 1, hit_domain = d,
                  hit_text = trim (split_lines content ! i) \<rparr>"
    then obtain f k i d pre post where o: "(f, k) \<in> set (tree_files ?R ents)"
      "(\<exists>p. f = p @ js ''.mdx'') \<or> (\<exists>p. f = p @ js ''.md'') \<or> basename f = js ''docs.json''"
      "i < length (split_lines k)" "d \<in> set banned"
      "split_lines k ! i = pre @ d @ post"
      "h = \<lparr> hit_file = f, hit_line = i + 1, hit_domain = d,
                  hit_text = trim (split_lines k ! i) \<rparr>"
      by (elim exE conjE)
    from c [OF o(1)] have ck: "content f = k" .
    from o(1) have fp: "f \<in> set (tree_paths ?R ents)" unfolding p by (rule exI)
    show "h \<in> set hits"
      unfolding m using fp o(2-) unfolding ck [symmetric]
      by (intro exI [of _ f] exI [of _ i] exI [of _ d] exI [of _ pre] exI [of _ post] conjI)
  qed
  have Z: "\<forall>f content. (f, content) \<in> set (tree_files ?R ents) \<and>
           (\<forall>line \<in> set (split_lines content). \<forall>d \<in> set banned. \<not> js_includes line d)
           \<longrightarrow> (\<forall>h \<in> set hits. hit_file h \<noteq> f)"
  proof (intro allI impI, elim conjE)
    fix f k
    assume a: "(f, k) \<in> set (tree_files ?R ents)"
      and b: "\<forall>line \<in> set (split_lines k). \<forall>d \<in> set banned. \<not> js_includes line d"
    from c [OF a] have "content f = k" .
    with b have "\<forall>line \<in> set (split_lines (content f)). \<forall>d \<in> set banned. \<not> js_includes line d"
      by simp
    then show "\<forall>h \<in> set hits. hit_file h \<noteq> f" by (rule z)
  qed
  show ?thesis
    by (rule exI [of _ hits]) (intro conjI e M Z)
qed

text \<open>
  C10. Under the conditions of C4, the number of hits for a file, a line number and a
  banned domain is 1 when the file is scanned, the line exists and contains the domain,
  and 0 otherwise: a domain that occurs several times in a line gives one hit, and each
  banned domain of a line gives its own.
\<close>

theorem findBannedDomains_one_hit:
  assumes "wf_fs w" "list_all proper_name segs" "fs_lookup w (render segs) = Inr (Dir ents)"
  shows "\<exists>hits. findBannedDomains w (render segs) = Inr hits \<and>
      (\<forall>f i d. length (filter (\<lambda>h. hit_file h = f \<and> hit_line h = i \<and> hit_domain h = d) hits) =
         (if \<exists>content. (f, content) \<in> set (tree_files (render segs) ents) \<and> docs_predicate f \<and>
               0 < i \<and> i \<le> length (split_lines content) \<and> d \<in> set banned \<and>
               js_includes (split_lines content ! (i - 1)) d
          then 1 else 0))"
proof -
  let ?R = "render segs"
  from wf_content [OF assms] obtain content where
    c: "\<And>p c. (p, c) \<in> set (tree_files ?R ents) \<Longrightarrow> content p = c"
    and r: "\<forall>f \<in> set (tree_paths ?R ents). readText w f = Inr (content f)"
    by blast
  have r': "\<forall>f \<in> set (tree_paths ?R ents). docs_predicate f \<longrightarrow> readText w f = Inr (content f)"
    using r by simp
  have d: "distinct (filter docs_predicate (tree_paths ?R ents))"
    using tree_files_readable(2) [OF assms] by (simp add: tree_paths_tree_files)
  from findBannedDomains_one_hit_readable [OF assms(3) r' d] obtain hits where
    e: "findBannedDomains w ?R = Inr hits"
    and n: "\<And>f i d. length (filter (\<lambda>h. hit_file h = f \<and> hit_line h = i \<and> hit_domain h = d) hits) =
         (if f \<in> set (tree_paths ?R ents) \<and> docs_predicate f \<and>
             0 < i \<and> i \<le> length (split_lines (content f)) \<and> d \<in> set banned \<and>
             js_includes (split_lines (content f) ! (i - 1)) d
          then 1 else 0)"
    by blast
  have p: "f \<in> set (tree_paths ?R ents) \<longleftrightarrow> (\<exists>c. (f, c) \<in> set (tree_files ?R ents))" for f
    by (force simp: tree_paths_tree_files)
  have q: "(f \<in> set (tree_paths ?R ents) \<and> docs_predicate f \<and>
             0 < i \<and> i \<le> length (split_lines (content f)) \<and> d \<in> set banned \<and>
             js_includes (split_lines (content f) ! (i - 1)) d) \<longleftrightarrow>
           (\<exists>k. (f, k) \<in> set (tree_files ?R ents) \<and> docs_predicate f \<and>
               0 < i \<and> i \<le> length (split_lines k) \<and> d \<in> set banned \<and>
               js_includes (split_lines k ! (i - 1)) d)" for f i d
  proof
    assume a: "f \<in> set (tree_paths ?R ents) \<and> docs_predicate f \<and>
             0 < i \<and> i \<le> length (split_lines (content f)) \<and> d \<in> set banned \<and>
             js_includes (split_lines (content f) ! (i - 1)) d"
    then obtain k where k: "(f, k) \<in> set (tree_files ?R ents)" unfolding p by blast
    from c [OF k] have "content f = k" .
    with a k show "\<exists>k. (f, k) \<in> set (tree_files ?R ents) \<and> docs_predicate f \<and>
               0 < i \<and> i \<le> length (split_lines k) \<and> d \<in> set banned \<and>
               js_includes (split_lines k ! (i - 1)) d"
      by (intro exI [of _ k]) simp
  next
    assume "\<exists>k. (f, k) \<in> set (tree_files ?R ents) \<and> docs_predicate f \<and>
               0 < i \<and> i \<le> length (split_lines k) \<and> d \<in> set banned \<and>
               js_includes (split_lines k ! (i - 1)) d"
    then obtain k where k: "(f, k) \<in> set (tree_files ?R ents)" and a: "docs_predicate f \<and>
               0 < i \<and> i \<le> length (split_lines k) \<and> d \<in> set banned \<and>
               js_includes (split_lines k ! (i - 1)) d" by (elim exE conjE) simp
    from c [OF k] have "content f = k" .
    moreover from k have "f \<in> set (tree_paths ?R ents)" unfolding p by (rule exI)
    ultimately show "f \<in> set (tree_paths ?R ents) \<and> docs_predicate f \<and>
             0 < i \<and> i \<le> length (split_lines (content f)) \<and> d \<in> set banned \<and>
             js_includes (split_lines (content f) ! (i - 1)) d"
      using a by simp
  qed
  have N: "\<forall>f i d. length (filter (\<lambda>h. hit_file h = f \<and> hit_line h = i \<and> hit_domain h = d) hits) =
         (if \<exists>content. (f, content) \<in> set (tree_files ?R ents) \<and> docs_predicate f \<and>
               0 < i \<and> i \<le> length (split_lines content) \<and> d \<in> set banned \<and>
               js_includes (split_lines content ! (i - 1)) d
          then 1 else 0)"
    unfolding n q by simp
  show ?thesis
    by (rule exI [of _ hits]) (intro conjI e N)
qed

section \<open>The coverage checker\<close>

lemma read_corpus_eq:
  "\<forall>f \<in> set files. readText w f = Inr (content f) \<Longrightarrow>
   read_corpus w files = Inr (map (\<lambda>f. (f, content f)) files)"
  by (induction files) auto

lemma check_names_eq:
  "check_names w corpus names missing =
     Inr (missing @ filter (\<lambda>name. \<not> list_ex (\<lambda>(f, t). re_test (ignore_case w) (tool_pattern name) t) corpus) names)"
  by (induction names arbitrary: missing) (auto simp: tool_regex_eq)

lemma checkToolsCovered_eq:
  assumes "fs_lookup w docsRoot = Inr (Dir ents)"
    and "\<forall>f \<in> set (tree_paths docsRoot ents). endsWith f (js ''.mdx'') \<longrightarrow> readText w f = Inr (content f)"
  shows "checkToolsCovered w toolNames docsRoot =
     Inr (filter (\<lambda>p. endsWith p (js ''.mdx'')) (tree_paths docsRoot ents),
          filter (\<lambda>name. \<not> (\<exists>f \<in> set (filter (\<lambda>p. endsWith p (js ''.mdx'')) (tree_paths docsRoot ents)).
                               re_test (ignore_case w) (tool_pattern name) (content f))) toolNames)"
proof -
  let ?files = "filter (\<lambda>p. endsWith p (js ''.mdx'')) (tree_paths docsRoot ents)"
  have w: "walkFiles w docsRoot (\<lambda>p. endsWith p (js ''.mdx'')) = Inr ?files"
    using assms(1) by (simp add: walkFiles_def walk_entries_tree_paths)
  have "\<forall>f \<in> set ?files. readText w f = Inr (content f)"
    using assms(2) by simp
  then have c: "read_corpus w ?files = Inr (map (\<lambda>f. (f, content f)) ?files)"
    by (rule read_corpus_eq)
  have l: "list_ex (\<lambda>(f, t). re_test (ignore_case w) (tool_pattern name) t) (map (\<lambda>f. (f, content f)) ?files)
      \<longleftrightarrow> (\<exists>f \<in> set ?files. re_test (ignore_case w) (tool_pattern name) (content f))" for name
    unfolding list_ex_iff by auto
  show ?thesis
    by (simp add: checkToolsCovered_def w c check_names_eq l)
qed

text \<open>
  C1. Let the file system be well formed and the tools documentation root an absolute
  path that names a directory. Then the coverage checker returns the \<^verbatim>\<open>.mdx\<close> files below
  the root and the list of missing tools, and the missing tools are the extracted names,
  in their order, whose pattern matches the text of none of these files. The pattern
  built from a name is \<open>tool_pattern\<close>: the escaped name is read back as the name itself,
  and the pattern matches a text exactly when the text mentions the name as a whole
  word, up to case. So nothing is missing exactly when every name is matched in some
  file, and a name matched in no file is among the missing ones.
\<close>

theorem checkToolsCovered_missing:
  assumes "wf_fs w" "list_all proper_name segs" "fs_lookup w (render segs) = Inr (Dir ents)"
  shows "\<exists>toolFiles missing.
      checkToolsCovered w (extractToolNames m) (render segs) = Inr (toolFiles, missing) \<and>
      toolFiles = filter (\<lambda>p. endsWith p (js ''.mdx'')) (map fst (tree_files (render segs) ents)) \<and>
      (\<forall>name. tool_regex name = Some (tool_pattern name)) \<and>
      missing = filter (\<lambda>name. \<not> (\<exists>(f, content) \<in> set (tree_files (render segs) ents).
                    endsWith f (js ''.mdx'') \<and> re_test (ignore_case w) (tool_pattern name) content))
                  (extractToolNames m) \<and>
      missing = filter (\<lambda>name. \<not> (\<exists>(f, content) \<in> set (tree_files (render segs) ents).
                    endsWith f (js ''.mdx'') \<and> mentions (ignore_case w) name content))
                  (extractToolNames m) \<and>
      (missing = [] \<longleftrightarrow>
         (\<forall>name \<in> set (extractToolNames m). \<exists>(f, content) \<in> set (tree_files (render segs) ents).
            endsWith f (js ''.mdx'') \<and> re_test (ignore_case w) (tool_pattern name) content)) \<and>
      (\<forall>name \<in> set (extractToolNames m).
         (\<forall>(f, content) \<in> set (tree_files (render segs) ents).
            endsWith f (js ''.mdx'') \<longrightarrow> \<not> re_test (ignore_case w) (tool_pattern name) content)
           \<longrightarrow> name \<in> set missing)"
proof -
  let ?R = "render segs"
  let ?files = "filter (\<lambda>p. endsWith p (js ''.mdx'')) (tree_paths ?R ents)"
  let ?cov = "\<lambda>name. \<exists>(f, content) \<in> set (tree_files ?R ents).
                    endsWith f (js ''.mdx'') \<and> re_test (ignore_case w) (tool_pattern name) content"
  let ?missing = "filter (\<lambda>name. \<not> ?cov name) (extractToolNames m)"
  from wf_content [OF assms] obtain content where
    c: "\<And>p c. (p, c) \<in> set (tree_files ?R ents) \<Longrightarrow> content p = c"
    and r: "\<forall>f \<in> set (tree_paths ?R ents). readText w f = Inr (content f)"
    by blast
  have r': "\<forall>f \<in> set (tree_paths ?R ents). endsWith f (js ''.mdx'') \<longrightarrow> readText w f = Inr (content f)"
    using r by simp
  have cov: "(\<exists>f \<in> set ?files. re_test (ignore_case w) (tool_pattern name) (content f)) \<longleftrightarrow> ?cov name"
    for name
  proof
    assume "\<exists>f \<in> set ?files. re_test (ignore_case w) (tool_pattern name) (content f)"
    then obtain f where f: "f \<in> set (tree_paths ?R ents)" "endsWith f (js ''.mdx'')"
      "re_test (ignore_case w) (tool_pattern name) (content f)" by auto
    from f(1) obtain k where k: "(f, k) \<in> set (tree_files ?R ents)"
      by (force simp: tree_paths_tree_files)
    from c [OF k] f k show "?cov name" by auto
  next
    assume "?cov name"
    then obtain f k where k: "(f, k) \<in> set (tree_files ?R ents)" "endsWith f (js ''.mdx'')"
      "re_test (ignore_case w) (tool_pattern name) k" by auto
    from k(1) have "f \<in> set (tree_paths ?R ents)" by (force simp: tree_paths_tree_files)
    with c [OF k(1)] k show "\<exists>f \<in> set ?files. re_test (ignore_case w) (tool_pattern name) (content f)"
      by auto
  qed
  have e: "checkToolsCovered w (extractToolNames m) ?R =
      Inr (filter (\<lambda>p. endsWith p (js ''.mdx'')) (map fst (tree_files ?R ents)), ?missing)"
    using checkToolsCovered_eq [OF assms(3) r', of "extractToolNames m"]
    unfolding cov by (simp add: tree_paths_tree_files)
  have t: "\<forall>name. tool_regex name = Some (tool_pattern name)"
    by (simp add: tool_regex_eq)
  have s: "?missing = filter (\<lambda>name. \<not> (\<exists>(f, content) \<in> set (tree_files ?R ents).
                    endsWith f (js ''.mdx'') \<and> mentions (ignore_case w) name content))
                  (extractToolNames m)"
    by (simp add: re_test_tool_pattern_mentions)
  have z: "?missing = [] \<longleftrightarrow> (\<forall>name \<in> set (extractToolNames m). ?cov name)"
    unfolding filter_empty_conv by blast
  have i: "\<forall>name \<in> set (extractToolNames m).
         (\<forall>(f, content) \<in> set (tree_files ?R ents).
            endsWith f (js ''.mdx'') \<longrightarrow> \<not> re_test (ignore_case w) (tool_pattern name) content)
           \<longrightarrow> name \<in> set ?missing"
    by auto
  show ?thesis
    by (rule exI [of _ "filter (\<lambda>p. endsWith p (js ''.mdx'')) (map fst (tree_files ?R ents))"],
        rule exI [of _ ?missing]) (intro conjI e refl t s z i)
qed

section \<open>The manifest sources\<close>

lemma foldl_append_concat: "foldl (@) acc chunks = acc @ concat chunks"
  by (induction chunks arbitrary: acc) auto

lemma header_keys:
  "js ''Accept'' \<noteq> js ''Authorization''" "js ''Accept'' \<noteq> js ''User-Agent''"
  "js ''Authorization'' \<noteq> js ''User-Agent''"
  by (simp_all add: js_def)

text \<open>
  C7. The request is a GET for the URL with the headers \<^verbatim>\<open>Accept: application/json\<close> and
  \<^verbatim>\<open>User-Agent: adsgateway-docs-guardrails\<close>, and with \<^verbatim>\<open>Authorization: Bearer\<close> and the
  token exactly when \<^verbatim>\<open>GITHUB_TOKEN\<close> or, failing that, \<^verbatim>\<open>GH_TOKEN\<close> holds a non-empty
  value. A response with a status of 400 or more rejects with an error whose message
  holds the status and the URL; a response with a lower status whose body is not JSON
  rejects with an error whose message names the URL and carries the parser's message;
  a body that is JSON resolves with its value.
\<close>

theorem fetchJson_contract:
  "req_method (fetch_request w url) = js ''GET'' \<and>
   req_url (fetch_request w url) = url \<and>
   map_of (req_headers (fetch_request w url)) (js ''Accept'') = Some (js ''application/json'') \<and>
   map_of (req_headers (fetch_request w url)) (js ''User-Agent'') = Some (js ''adsgateway-docs-guardrails'') \<and>
   map_of (req_headers (fetch_request w url)) (js ''Authorization'') =
     (if github_token w = [] then None else Some (js ''Bearer '' @ github_token w)) \<and>
   (\<forall>t. env w (js ''GITHUB_TOKEN'') = Some t \<and> t \<noteq> [] \<longrightarrow> github_token w = t) \<and>
   (\<forall>t. (env w (js ''GITHUB_TOKEN'') = None \<or> env w (js ''GITHUB_TOKEN'') = Some []) \<and>
        env w (js ''GH_TOKEN'') = Some t \<longrightarrow> github_token w = t) \<and>
   ((env w (js ''GITHUB_TOKEN'') = None \<or> env w (js ''GITHUB_TOKEN'') = Some []) \<and>
        env w (js ''GH_TOKEN'') = None \<longrightarrow> github_token w = []) \<and>
   (\<forall>statusCode chunks. https_request w (fetch_request w url) = Response statusCode chunks \<and>
        400 \<le> statusCode \<longrightarrow>
        fetchJson w url = Some (Inl (JsError (js ''Error'')
          (js ''Fetch failed ('' @ show_nat statusCode @ js '') for '' @ url)))) \<and>
   (\<forall>statusCode chunks msg. https_request w (fetch_request w url) = Response statusCode chunks \<and>
        statusCode < 400 \<and> JSON_parse w (concat chunks) = Inl msg \<longrightarrow>
        fetchJson w url = Some (Inl (JsError (js ''Error'')
          (js ''Invalid JSON from '' @ url @ js '': '' @ msg)))) \<and>
   (\<forall>statusCode chunks v. https_request w (fetch_request w url) = Response statusCode chunks \<and>
        statusCode < 400 \<and> JSON_parse w (concat chunks) = Inr v \<longrightarrow>
        fetchJson w url = Some (Inr v))"
proof -
  have 1: "req_method (fetch_request w url) = js ''GET'' \<and> req_url (fetch_request w url) = url"
    by (simp add: fetch_request_def Let_def)
  have 2: "map_of (req_headers (fetch_request w url)) (js ''Accept'') = Some (js ''application/json'')"
    by (simp add: fetch_request_def Let_def)
  have 3: "map_of (req_headers (fetch_request w url)) (js ''User-Agent'') = Some (js ''adsgateway-docs-guardrails'')"
    using header_keys by (simp add: fetch_request_def Let_def)
  have 4: "map_of (req_headers (fetch_request w url)) (js ''Authorization'') =
     (if github_token w = [] then None else Some (js ''Bearer '' @ github_token w))"
    using header_keys by (simp add: fetch_request_def Let_def)
  have 5: "\<forall>t. env w (js ''GITHUB_TOKEN'') = Some t \<and> t \<noteq> [] \<longrightarrow> github_token w = t"
    by (simp add: github_token_def env_or_empty_def)
  have 6: "\<forall>t. (env w (js ''GITHUB_TOKEN'') = None \<or> env w (js ''GITHUB_TOKEN'') = Some []) \<and>
        env w (js ''GH_TOKEN'') = Some t \<longrightarrow> github_token w = t"
    by (auto simp: github_token_def env_or_empty_def)
  have 7: "(env w (js ''GITHUB_TOKEN'') = None \<or> env w (js ''GITHUB_TOKEN'') = Some []) \<and>
        env w (js ''GH_TOKEN'') = None \<longrightarrow> github_token w = []"
    by (auto simp: github_token_def env_or_empty_def)
  have 8: "\<forall>statusCode chunks. https_request w (fetch_request w url) = Response statusCode chunks \<and>
        400 \<le> statusCode \<longrightarrow>
        fetchJson w url = Some (Inl (JsError (js ''Error'')
          (js ''Fetch failed ('' @ show_nat statusCode @ js '') for '' @ url)))"
    by (auto simp: fetchJson_def)
  have 9: "\<forall>statusCode chunks msg. https_request w (fetch_request w url) = Response statusCode chunks \<and>
        statusCode < 400 \<and> JSON_parse w (concat chunks) = Inl msg \<longrightarrow>
        fetchJson w url = Some (Inl (JsError (js ''Error'')
          (js ''Invalid JSON from '' @ url @ js '': '' @ msg)))"
    by (auto simp: fetchJson_def foldl_append_concat)
  have 10: "\<forall>statusCode chunks v. https_request w (fetch_request w url) = Response statusCode chunks \<and>
        statusCode < 400 \<and> JSON_parse w (concat chunks) = Inr v \<longrightarrow>
        fetchJson w url = Some (Inr v)"
    by (auto simp: fetchJson_def foldl_append_concat)
  from 1 2 3 4 5 6 7 8 9 10 show ?thesis by blast
qed

lemma unable_to_locate_text:
  "unable_to_locate =
     js ''Unable to locate mcp-tools.json. Set MCP_TOOLS_JSON_PATH or MCP_TOOLS_JSON_URL, or add tooling/mcp-tools.json.''"
  by (simp add: unable_to_locate_def js_def)

lemma unable_to_locate_names:
  "js_includes unable_to_locate (js ''MCP_TOOLS_JSON_PATH'') \<and>
   js_includes unable_to_locate (js ''MCP_TOOLS_JSON_URL'') \<and>
   js_includes unable_to_locate (js ''tooling/mcp-tools.json'')"
  by code_simp

text \<open>
  C3. The resolver takes the file named by \<^verbatim>\<open>MCP_TOOLS_JSON_PATH\<close> when the variable is
  set to more than whitespace; otherwise the sibling repository's file when it exists;
  otherwise the URL of \<^verbatim>\<open>MCP_TOOLS_JSON_URL\<close> when that is set; otherwise the vendored
  file when it exists. The source taken decides the result, whether it yields a
  manifest or an error. With no source, the resolver throws an error whose message
  names both variables and the vendored file, and the run, past its check of the tools
  directory, prints that error and exits with status 1 whatever the documentation tree
  holds: nothing is scanned.
\<close>

theorem loadMcpToolsJson_priority:
  "(trim (env_or_empty w (js ''MCP_TOOLS_JSON_PATH'')) \<noteq> [] \<longrightarrow>
      loadMcpToolsJson w = Some (read_json w
        (if isAbsolute (trim (env_or_empty w (js ''MCP_TOOLS_JSON_PATH'')))
         then trim (env_or_empty w (js ''MCP_TOOLS_JSON_PATH''))
         else path_join [cwd w, trim (env_or_empty w (js ''MCP_TOOLS_JSON_PATH''))]))) \<and>
   (trim (env_or_empty w (js ''MCP_TOOLS_JSON_PATH'')) = [] \<and> existsSync w (siblingPath w) \<longrightarrow>
      loadMcpToolsJson w = Some (read_json w (siblingPath w))) \<and>
   (trim (env_or_empty w (js ''MCP_TOOLS_JSON_PATH'')) = [] \<and> \<not> existsSync w (siblingPath w) \<and>
    trim (env_or_empty w (js ''MCP_TOOLS_JSON_URL'')) \<noteq> [] \<longrightarrow>
      loadMcpToolsJson w = fetchJson w (trim (env_or_empty w (js ''MCP_TOOLS_JSON_URL'')))) \<and>
   (trim (env_or_empty w (js ''MCP_TOOLS_JSON_PATH'')) = [] \<and> \<not> existsSync w (siblingPath w) \<and>
    trim (env_or_empty w (js ''MCP_TOOLS_JSON_URL'')) = [] \<and> existsSync w (vendored w) \<longrightarrow>
      loadMcpToolsJson w = Some (read_json w (vendored w))) \<and>
   (trim (env_or_empty w (js ''MCP_TOOLS_JSON_PATH'')) = [] \<and> \<not> existsSync w (siblingPath w) \<and>
    trim (env_or_empty w (js ''MCP_TOOLS_JSON_URL'')) = [] \<and> \<not> existsSync w (vendored w) \<longrightarrow>
      loadMcpToolsJson w = Some (Inl (JsError (js ''Error'') unable_to_locate)) \<and>
      js_includes unable_to_locate (js ''MCP_TOOLS_JSON_PATH'') \<and>
      js_includes unable_to_locate (js ''MCP_TOOLS_JSON_URL'') \<and>
      js_includes unable_to_locate (js ''tooling/mcp-tools.json'') \<and>
      (existsSync w (toolsDocsRoot w) \<longrightarrow>
         main w = Some \<lparr> stdout = [],
                          stderr = [LF # js ''[guardrails] Failed:'',
                                    error_text w (JsError (js ''Error'') unable_to_locate)],
                          exit_code = 1 \<rparr>))"
proof -
  have m: "main w = Some \<lparr> stdout = [],
                          stderr = [LF # js ''[guardrails] Failed:'',
                                    error_text w (JsError (js ''Error'') unable_to_locate)],
                          exit_code = 1 \<rparr>"
    if "loadMcpToolsJson w = Some (Inl (JsError (js ''Error'') unable_to_locate))"
      and "existsSync w (toolsDocsRoot w)"
    using that by (simp add: main_def main_checks_def top_level_catch_def)
  show ?thesis
    using m unable_to_locate_names by (auto simp: loadMcpToolsJson_def Let_def)
qed

section \<open>The run as a whole\<close>




text \<open>
  C8, as the code has it. When nothing exists at \<^verbatim>\<open>tools\<close> under the repository root,
  the run prints the error \<^verbatim>\<open>Missing tools/ directory in docs repo.\<close> and exits with
  status 1, whatever the environment, the network and the rest of the tree are: the
  manifest is not resolved and nothing is scanned.
\<close>

theorem missing_tools_directory:
  assumes "\<not> existsSync w (toolsDocsRoot w)"
  shows "main w = Some \<lparr> stdout = [],
                         stderr = [LF # js ''[guardrails] Failed:'',
                                   error_text w (JsError (js ''Error'') (js ''Missing tools/ directory in docs repo.''))],
                         exit_code = 1 \<rparr>"
  using assms by (simp add: main_def main_checks_def top_level_catch_def)

lemma spec_entry_name_None:
  assumes "spec_entry_name t = None"
  shows "entry_name t = None"
proof -
  have n: "\<not> is_nonempty_string v" if "v \<in> set (name_fields t)" for v
  proof
    assume "is_nonempty_string v"
    with that obtain u where f: "find is_nonempty_string (name_fields t) = Some u"
      by (cases "find is_nonempty_string (name_fields t)") (auto simp: find_None_iff)
    then have "is_nonempty_string u" by (auto simp: find_Some_iff)
    then obtain s where "u = Some (JStr s)"
      by (auto simp: is_nonempty_string_def split: option.splits json.splits)
    with f assms show False by (simp add: spec_entry_name_def name_fields_def)
  qed
  have "entry_value t \<in> set (name_fields t)"
    by (simp add: entry_value_def js_or_def name_fields_def)
  from n [OF this] have "\<not> is_nonempty_string (entry_value t)" .
  then show ?thesis
    by (auto simp: entry_name_def is_nonempty_string_def trim_Nil split: option.splits json.splits)
qed

lemma show_nat_0: "show_nat 0 = js ''0''"
  by (subst show_nat.simps) (simp add: js_def)

text \<open>
  C9. Let the manifest be neither an array nor an object with an array under
  \<^verbatim>\<open>tools\<close>, or let none of its entries give a name (which is so when none of them has
  a non-empty string under \<^verbatim>\<open>name\<close>, \<^verbatim>\<open>tool\<close> or \<^verbatim>\<open>id\<close>). Then no name is extracted;
  the coverage check reports no missing tool whenever it returns, and it returns for
  every tools root that is a directory whose \<^verbatim>\<open>.mdx\<close> files can be read; and a run that
  loads this manifest and finds no banned domain prints that 0 tools are covered and
  exits with status 0.
\<close>

theorem empty_manifest_vacuous:
  assumes "((\<forall>ts. m \<noteq> JArr ts) \<and> (\<forall>ts. get_prop m (js ''tools'') \<noteq> Some (JArr ts))) \<or>
           (\<forall>t \<in> set (manifest_tools m). entry_name t = None) \<or>
           (\<forall>t \<in> set (manifest_tools m). spec_entry_name t = None)"
  shows "extractToolNames m = [] \<and>
     (\<forall>w docsRoot toolFiles missing.
        checkToolsCovered w (extractToolNames m) docsRoot = Inr (toolFiles, missing) \<longrightarrow> missing = []) \<and>
     (\<forall>w docsRoot ents content. fs_lookup w docsRoot = Inr (Dir ents) \<and>
        (\<forall>f \<in> set (tree_paths docsRoot ents). endsWith f (js ''.mdx'') \<longrightarrow> readText w f = Inr (content f)) \<longrightarrow>
        (\<exists>toolFiles. checkToolsCovered w (extractToolNames m) docsRoot = Inr (toolFiles, []))) \<and>
     (\<forall>w toolFiles. existsSync w (toolsDocsRoot w) \<and> loadMcpToolsJson w = Some (Inr m) \<and>
        checkToolsCovered w (extractToolNames m) (toolsDocsRoot w) = Inr (toolFiles, []) \<and>
        findBannedDomains w (cwd w) = Inr [] \<longrightarrow>
        main w = Some \<lparr> stdout = [js ''[guardrails] OK: 0 tools covered; no banned domains found.''],
                         stderr = [], exit_code = 0 \<rparr>)"
proof -
  have none: "\<forall>t \<in> set (manifest_tools m). entry_name t = None"
    using assms
  proof (elim disjE)
    assume "(\<forall>ts. m \<noteq> JArr ts) \<and> (\<forall>ts. get_prop m (js ''tools'') \<noteq> Some (JArr ts))"
    then have "manifest_tools m = []"
      by (auto simp: manifest_tools_def split: json.splits option.splits)
    then show ?thesis by simp
  next
    assume "\<forall>t \<in> set (manifest_tools m). entry_name t = None"
    then show ?thesis .
  next
    assume "\<forall>t \<in> set (manifest_tools m). spec_entry_name t = None"
    then show ?thesis by (simp add: spec_entry_name_None)
  qed
  then have "List.map_filter entry_name (manifest_tools m) = []"
    by (auto simp: List.map_filter_def filter_empty_conv)
  then have e: "extractToolNames m = []"
    by (simp add: extractToolNames_def collect_names_append)
  have a: "missing = []" if "checkToolsCovered w [] docsRoot = Inr (toolFiles, missing)"
    for w docsRoot toolFiles missing
    using that by (auto simp: checkToolsCovered_def split: sum.splits)
  have b: "\<exists>toolFiles. checkToolsCovered w [] docsRoot = Inr (toolFiles, [])"
    if "fs_lookup w docsRoot = Inr (Dir ents)"
      and "\<forall>f \<in> set (tree_paths docsRoot ents). endsWith f (js ''.mdx'') \<longrightarrow> readText w f = Inr (content f)"
    for w docsRoot ents content
    using checkToolsCovered_eq [OF that, of "[]"] by simp
  have c: "main w = Some \<lparr> stdout = [js ''[guardrails] OK: 0 tools covered; no banned domains found.''],
                         stderr = [], exit_code = 0 \<rparr>"
    if "existsSync w (toolsDocsRoot w)" "loadMcpToolsJson w = Some (Inr m)"
       "checkToolsCovered w [] (toolsDocsRoot w) = Inr (toolFiles, [])"
       "findBannedDomains w (cwd w) = Inr []" for w toolFiles
    using that e by (simp add: main_def main_checks_def report_def show_nat_0 js_def)
  from e a b c show ?thesis unfolding e by blast
qed

section \<open>The claims on example runs\<close>

theorem fetchJson_contract_witness:
  "fetchJson (example_world [(js ''GH_TOKEN'', js ''s3cret'')] [] (Response 404 [js ''Not Found''])) example_url
     = Some (Inl (JsError (js ''Error'') (js ''Fetch failed (404) for https://example.com/tools.json''))) \<and>
   fetchJson (example_world [] [] (Response 200 [js ''<html>'', js ''</html>''])) example_url
     = Some (Inl (JsError (js ''Error'')
         (js ''Invalid JSON from https://example.com/tools.json: Unexpected token''))) \<and>
   map_of (req_headers (fetch_request (example_world [(js ''GH_TOKEN'', js ''s3cret'')] [] NoReply) example_url))
     (js ''Authorization'') = Some (js ''Bearer s3cret'')"
proof -
  let ?w = "example_world [(js ''GH_TOKEN'', js ''s3cret'')] [] (Response 404 [js ''Not Found''])"
  let ?v = "example_world [] [] (Response 200 [js ''<html>'', js ''</html>''])"
  let ?u = "example_world [(js ''GH_TOKEN'', js ''s3cret'')] [] NoReply"
  have 1: "https_request ?w (fetch_request ?w example_url) = Response 404 [js ''Not Found''] \<and> (400::nat) \<le> 404"
    by (simp add: example_world_def)
  have 2: "https_request ?v (fetch_request ?v example_url) = Response 200 [js ''<html>'', js ''</html>'']
      \<and> (200::nat) < 400 \<and> JSON_parse ?v (concat [js ''<html>'', js ''</html>'']) = Inl (js ''Unexpected token'')"
    by code_simp
  have 3: "github_token ?u = js ''s3cret''"
    by code_simp
  have 4: "js ''Fetch failed ('' @ show_nat 404 @ js '') for '' @ example_url
      = js ''Fetch failed (404) for https://example.com/tools.json''"
    by code_simp
  have 5: "js ''Invalid JSON from '' @ example_url @ js '': '' @ js ''Unexpected token''
      = js ''Invalid JSON from https://example.com/tools.json: Unexpected token''"
    by code_simp
  have 6: "js ''s3cret'' \<noteq> []" by (simp add: js_def)
  from fetchJson_contract [of ?w example_url] 1 4
  have a: "fetchJson ?w example_url
     = Some (Inl (JsError (js ''Error'') (js ''Fetch failed (404) for https://example.com/tools.json'')))"
    by metis
  from fetchJson_contract [of ?v example_url] 2 5
  have b: "fetchJson ?v example_url = Some (Inl (JsError (js ''Error'')
         (js ''Invalid JSON from https://example.com/tools.json: Unexpected token'')))"
    by metis
  have 7: "js ''Bearer '' @ js ''s3cret'' = js ''Bearer s3cret''" by code_simp
  from fetchJson_contract [of ?u example_url]
  have "map_of (req_headers (fetch_request ?u example_url)) (js ''Authorization'') =
     (if github_token ?u = [] then None else Some (js ''Bearer '' @ github_token ?u))"
    by blast
  with 3 6 7
  have c: "map_of (req_headers (fetch_request ?u example_url)) (js ''Authorization'') = Some (js ''Bearer s3cret'')"
    by simp
  from a b c show ?thesis by blast
qed

theorem loadMcpToolsJson_priority_witness:
  "loadMcpToolsJson (example_world [] [tools_dir] NoReply)
     = Some (Inl (JsError (js ''Error'')
         (js ''Unable to locate mcp-tools.json. Set MCP_TOOLS_JSON_PATH or MCP_TOOLS_JSON_URL, or add tooling/mcp-tools.json.''))) \<and>
   main (example_world [] [tools_dir] NoReply)
     = Some \<lparr> stdout = [],
              stderr = [LF # js ''[guardrails] Failed:'',
                        js ''Unable to locate mcp-tools.json. Set MCP_TOOLS_JSON_PATH or MCP_TOOLS_JSON_URL, or add tooling/mcp-tools.json.''],
              exit_code = 1 \<rparr> \<and>
   loadMcpToolsJson (example_world [] [tools_dir, vendored_dir manifest_text] NoReply) = Some (Inr manifest_value) \<and>
   loadMcpToolsJson (example_world [(js ''MCP_TOOLS_JSON_URL'', example_url)] [tools_dir, vendored_dir manifest_text] NoReply)
     = None"
proof -
  let ?w = "example_world [] [tools_dir] NoReply"
  let ?v = "example_world [] [tools_dir, vendored_dir manifest_text] NoReply"
  let ?u = "example_world [(js ''MCP_TOOLS_JSON_URL'', example_url)] [tools_dir, vendored_dir manifest_text] NoReply"
  have 1: "trim (env_or_empty ?w (js ''MCP_TOOLS_JSON_PATH'')) = [] \<and> \<not> existsSync ?w (siblingPath ?w) \<and>
    trim (env_or_empty ?w (js ''MCP_TOOLS_JSON_URL'')) = [] \<and> \<not> existsSync ?w (vendored ?w) \<and>
    existsSync ?w (toolsDocsRoot ?w)"
    by code_simp
  have 2: "error_text ?w (JsError (js ''Error'') unable_to_locate) = unable_to_locate"
    by code_simp
  have 3: "trim (env_or_empty ?v (js ''MCP_TOOLS_JSON_PATH'')) = [] \<and> \<not> existsSync ?v (siblingPath ?v) \<and>
    trim (env_or_empty ?v (js ''MCP_TOOLS_JSON_URL'')) = [] \<and> existsSync ?v (vendored ?v) \<and>
    read_json ?v (vendored ?v) = Inr manifest_value"
    by code_simp
  have 4: "trim (env_or_empty ?u (js ''MCP_TOOLS_JSON_PATH'')) = [] \<and> \<not> existsSync ?u (siblingPath ?u) \<and>
    trim (env_or_empty ?u (js ''MCP_TOOLS_JSON_URL'')) \<noteq> [] \<and>
    fetchJson ?u (trim (env_or_empty ?u (js ''MCP_TOOLS_JSON_URL''))) = None"
    by code_simp
  from loadMcpToolsJson_priority [of ?w] 1 2
  have a: "loadMcpToolsJson ?w = Some (Inl (JsError (js ''Error'') unable_to_locate)) \<and>
     main ?w = Some \<lparr> stdout = [], stderr = [LF # js ''[guardrails] Failed:'', unable_to_locate], exit_code = 1 \<rparr>"
    by simp
  from loadMcpToolsJson_priority [of ?v] 3
  have b: "loadMcpToolsJson ?v = Some (Inr manifest_value)"
    by simp
  from loadMcpToolsJson_priority [of ?u] 4
  have c: "loadMcpToolsJson ?u = None"
    by simp
  from a b c show ?thesis unfolding unable_to_locate_text by blast
qed

theorem missing_tools_directory_witness:
  "main (example_world [(js ''MCP_TOOLS_JSON_URL'', example_url)] [vendored_dir manifest_text] NoReply)
     = Some \<lparr> stdout = [],
              stderr = [LF # js ''[guardrails] Failed:'', js ''Missing tools/ directory in docs repo.''],
              exit_code = 1 \<rparr>"
proof -
  let ?w = "example_world [(js ''MCP_TOOLS_JSON_URL'', example_url)] [vendored_dir manifest_text] NoReply"
  have 1: "\<not> existsSync ?w (toolsDocsRoot ?w)"
    by code_simp
  have 2: "error_text ?w (JsError (js ''Error'') (js ''Missing tools/ directory in docs repo.''))
      = js ''Missing tools/ directory in docs repo.''"
    by code_simp
  from missing_tools_directory [OF 1] show ?thesis unfolding 2 .
qed

text \<open>
  C8, as stated, fails when \<^verbatim>\<open>tools\<close> exists and is a regular file: there is no tools
  directory, yet the manifest is resolved first. With no manifest source the error
  printed is the resolver's, and with a URL that never answers the run does not end.
\<close>

theorem tools_not_a_directory_counterexample:
  "fs_lookup (example_world [] [(js ''tools'', File (js ''a file''))] NoReply)
      (toolsDocsRoot (example_world [] [(js ''tools'', File (js ''a file''))] NoReply))
     = Inr (File (js ''a file'')) \<and>
   main (example_world [] [(js ''tools'', File (js ''a file''))] NoReply)
     = Some \<lparr> stdout = [],
              stderr = [LF # js ''[guardrails] Failed:'',
                        js ''Unable to locate mcp-tools.json. Set MCP_TOOLS_JSON_PATH or MCP_TOOLS_JSON_URL, or add tooling/mcp-tools.json.''],
              exit_code = 1 \<rparr> \<and>
   main (example_world [(js ''MCP_TOOLS_JSON_URL'', example_url)] [(js ''tools'', File (js ''a file''))] NoReply)
     = None"
  by code_simp

lemma repo_path: "render [js ''repo''] = js ''/repo''" "list_all proper_name [js ''repo'']"
  by code_simp+

lemma tools_path: "render [js ''repo'', js ''tools''] = js ''/repo/tools''"
  "list_all proper_name [js ''repo'', js ''tools'']"
  by code_simp+

lemma scenario_wf: "wf_fs (example_world [] scenario_entries NoReply)"
  by code_simp

lemma scenario_lookup:
  "fs_lookup (example_world [] scenario_entries NoReply) (render [js ''repo'']) = Inr (Dir scenario_entries)"
  by code_simp

theorem findBannedDomains_hits_witness:
  "\<exists>hits. findBannedDomains (example_world [] scenario_entries NoReply) (js ''/repo'') = Inr hits \<and>
     \<lparr> hit_file = js ''/repo/overview.mdx'', hit_line = 2, hit_domain = js ''docs.adsgateway.io'',
       hit_text = js ''See https://docs.adsgateway.io/guide for more.'' \<rparr> \<in> set hits \<and>
     (\<nexists>h. h \<in> set hits \<and> hit_file h = js ''/repo/tools/search.mdx'')"
proof -
  let ?w = "example_world [] scenario_entries NoReply"
  let ?f = "js ''/repo/overview.mdx''"
  let ?c = "js ''Intro'' @ [CR, LF] @ js ''  See https://docs.adsgateway.io/guide for more.''"
  let ?d = "js ''docs.adsgateway.io''"
  let ?files = "tree_files (render [js ''repo'']) scenario_entries"
  from findBannedDomains_hits [OF scenario_wf repo_path(2) scenario_lookup]
  obtain hits where e: "findBannedDomains ?w (render [js ''repo'']) = Inr hits"
    and m: "\<And>h. h \<in> set hits \<longleftrightarrow>
         (\<exists>f content i d pre post. (f, content) \<in> set ?files \<and>
            ((\<exists>p. f = p @ js ''.mdx'') \<or> (\<exists>p. f = p @ js ''.md'') \<or> basename f = js ''docs.json'') \<and>
            i < length (split_lines content) \<and> d \<in> set banned \<and>
            split_lines content ! i = pre @ d @ post \<and>
            h = \<lparr> hit_file = f, hit_line = i + 1, hit_domain = d,
                  hit_text = trim (split_lines content ! i) \<rparr>)"
    and z: "\<And>f content. (f, content) \<in> set ?files \<and>
           (\<forall>line \<in> set (split_lines content). \<forall>d \<in> set banned. \<not> js_includes line d)
           \<Longrightarrow> (\<forall>h \<in> set hits. hit_file h \<noteq> f)"
    by blast
  have 1: "(?f, ?c) \<in> set ?files" by code_simp
  have 2: "?f = js ''/repo/overview'' @ js ''.mdx''" by code_simp
  have 3: "1 < length (split_lines ?c)" by code_simp
  have 4: "?d \<in> set banned" by code_simp
  have 5: "split_lines ?c ! 1 = js ''  See https://'' @ ?d @ js ''/guide for more.''"
    by code_simp
  have 6: "\<lparr> hit_file = js ''/repo/overview.mdx'', hit_line = 2, hit_domain = js ''docs.adsgateway.io'',
       hit_text = js ''See https://docs.adsgateway.io/guide for more.'' \<rparr>
     = \<lparr> hit_file = ?f, hit_line = 1 + 1, hit_domain = ?d, hit_text = trim (split_lines ?c ! 1) \<rparr>"
    by code_simp
  have 7: "(\<exists>p. ?f = p @ js ''.mdx'') \<or> (\<exists>p. ?f = p @ js ''.md'') \<or> basename ?f = js ''docs.json''"
    using 2 by (intro disjI1 exI [of _ "js ''/repo/overview''"])
  have a: "\<lparr> hit_file = js ''/repo/overview.mdx'', hit_line = 2, hit_domain = js ''docs.adsgateway.io'',
       hit_text = js ''See https://docs.adsgateway.io/guide for more.'' \<rparr> \<in> set hits"
    unfolding m
    by (intro exI [of _ ?f] exI [of _ ?c] exI [of _ 1] exI [of _ ?d]
          exI [of _ "js ''  See https://''"] exI [of _ "js ''/guide for more.''"] conjI 1 7 3 4 5 6)
  have "(js ''/repo/tools/search.mdx'', js ''Use Search_Ads here.'') \<in> set ?files \<and>
        (\<forall>line \<in> set (split_lines (js ''Use Search_Ads here.'')). \<forall>d \<in> set banned. \<not> js_includes line d)"
    by code_simp
  from z [OF this] have "\<forall>h \<in> set hits. hit_file h \<noteq> js ''/repo/tools/search.mdx''" .
  then have b: "\<nexists>h. h \<in> set hits \<and> hit_file h = js ''/repo/tools/search.mdx''"
    by blast
  from e [unfolded repo_path(1)] a b show ?thesis
    by (intro exI [of _ hits] conjI)
qed

lemma repeated_wf: "wf_fs (example_world [] repeated_entries NoReply)"
  by code_simp

lemma repeated_lookup:
  "fs_lookup (example_world [] repeated_entries NoReply) (render [js ''repo'']) = Inr (Dir repeated_entries)"
  by code_simp

theorem findBannedDomains_one_hit_witness:
  "\<exists>hits. findBannedDomains (example_world [] repeated_entries NoReply) (js ''/repo'') = Inr hits \<and>
     length (filter (\<lambda>h. hit_file h = js ''/repo/notes.md'' \<and> hit_line h = 1 \<and>
                          hit_domain h = js ''docs.adsgateway.io'') hits) = 1 \<and>
     length (filter (\<lambda>h. hit_file h = js ''/repo/notes.md'' \<and> hit_line h = 1 \<and>
                          hit_domain h = js ''status.adsgateway.io'') hits) = 1 \<and>
     length (filter (\<lambda>h. hit_file h = js ''/repo/notes.md'' \<and> hit_line h = 2 \<and>
                          hit_domain h = js ''docs.adsgateway.io'') hits) = 0"
proof -
  let ?w = "example_world [] repeated_entries NoReply"
  let ?f = "js ''/repo/notes.md''"
  let ?t = "js ''docs.adsgateway.io and docs.adsgateway.io, status.adsgateway.io''"
  let ?files = "tree_files (render [js ''repo'']) repeated_entries"
  let ?c = "\<lambda>f i d. \<exists>content. (f, content) \<in> set ?files \<and> docs_predicate f \<and>
               0 < i \<and> i \<le> length (split_lines content) \<and> d \<in> set banned \<and>
               js_includes (split_lines content ! (i - 1)) d"
  from findBannedDomains_one_hit [OF repeated_wf repo_path(2) repeated_lookup]
  obtain hits where e: "findBannedDomains ?w (render [js ''repo'']) = Inr hits"
    and c: "\<And>f i d. length (filter (\<lambda>h. hit_file h = f \<and> hit_line h = i \<and> hit_domain h = d) hits) =
        (if ?c f i d then 1 else 0)"
    by blast
  have f: "?files = [(?f, ?t)]" by code_simp
  have 1: "?c ?f 1 (js ''docs.adsgateway.io'')"
  proof (intro exI [of _ ?t])
    show "(?f, ?t) \<in> set ?files \<and> docs_predicate ?f \<and>
               0 < (1::nat) \<and> 1 \<le> length (split_lines ?t) \<and> js ''docs.adsgateway.io'' \<in> set banned \<and>
               js_includes (split_lines ?t ! (1 - 1)) (js ''docs.adsgateway.io'')"
      by code_simp
  qed
  have 2: "?c ?f 1 (js ''status.adsgateway.io'')"
  proof (intro exI [of _ ?t])
    show "(?f, ?t) \<in> set ?files \<and> docs_predicate ?f \<and>
               0 < (1::nat) \<and> 1 \<le> length (split_lines ?t) \<and> js ''status.adsgateway.io'' \<in> set banned \<and>
               js_includes (split_lines ?t ! (1 - 1)) (js ''status.adsgateway.io'')"
      by code_simp
  qed
  have l: "length (split_lines ?t) = 1" by code_simp
  have 3: "\<not> ?c ?f 2 (js ''docs.adsgateway.io'')"
  proof
    assume "?c ?f 2 (js ''docs.adsgateway.io'')"
    then obtain content where k: "(?f, content) \<in> set ?files" "2 \<le> length (split_lines content)"
      by (elim exE conjE)
    from k(1) have "content = ?t" unfolding f by simp
    with k(2) l show False by simp
  qed
  have n1: "length (filter (\<lambda>h. hit_file h = ?f \<and> hit_line h = 1 \<and>
                          hit_domain h = js ''docs.adsgateway.io'') hits) = 1"
    unfolding c using 1 by (rule if_P)
  have n2: "length (filter (\<lambda>h. hit_file h = ?f \<and> hit_line h = 1 \<and>
                          hit_domain h = js ''status.adsgateway.io'') hits) = 1"
    unfolding c using 2 by (rule if_P)
  have n3: "length (filter (\<lambda>h. hit_file h = ?f \<and> hit_line h = 2 \<and>
                          hit_domain h = js ''docs.adsgateway.io'') hits) = 0"
    unfolding c using 3 by (rule if_not_P)
  from e [unfolded repo_path(1)] n1 n2 n3 show ?thesis
    by (intro exI [of _ hits] conjI)
qed

lemma scenario_tools_lookup:
  "fs_lookup (example_world [] scenario_entries NoReply) (render [js ''repo'', js ''tools''])
     = Inr (Dir [(js ''search.mdx'', File (js ''Use Search_Ads here.''))])"
  by code_simp

theorem checkToolsCovered_missing_witness:
  "checkToolsCovered (example_world [] scenario_entries NoReply) (extractToolNames manifest_value)
     (js ''/repo/tools'') = Inr ([js ''/repo/tools/search.mdx''], [js ''list_campaigns''])"
proof -
  let ?w = "example_world [] scenario_entries NoReply"
  let ?ents = "[(js ''search.mdx'', File (js ''Use Search_Ads here.''))]"
  let ?files = "tree_files (render [js ''repo'', js ''tools'']) ?ents"
  from checkToolsCovered_missing [OF scenario_wf tools_path(2) scenario_tools_lookup, of manifest_value]
  obtain toolFiles missing where
    e: "checkToolsCovered ?w (extractToolNames manifest_value) (render [js ''repo'', js ''tools''])
          = Inr (toolFiles, missing)"
    and f: "toolFiles = filter (\<lambda>p. endsWith p (js ''.mdx'')) (map fst ?files)"
    and m: "missing = filter (\<lambda>name. \<not> (\<exists>(f, content) \<in> set ?files.
                    endsWith f (js ''.mdx'') \<and> re_test (ignore_case ?w) (tool_pattern name) content))
                  (extractToolNames manifest_value)"
    by blast
  have 1: "filter (\<lambda>p. endsWith p (js ''.mdx'')) (map fst ?files) = [js ''/repo/tools/search.mdx'']"
    by code_simp
  have 2: "filter (\<lambda>name. \<not> (\<exists>(f, content) \<in> set ?files.
                    endsWith f (js ''.mdx'') \<and> re_test (ignore_case ?w) (tool_pattern name) content))
                  (extractToolNames manifest_value) = [js ''list_campaigns'']"
    by code_simp
  from e f m 1 2 show ?thesis unfolding tools_path(1) by simp
qed






theorem empty_manifest_vacuous_witness:
  "extractToolNames (JObj []) = [] \<and>
   main (example_world [] empty_manifest_entries NoReply) =
     Some \<lparr> stdout = [js ''[guardrails] OK: 0 tools covered; no banned domains found.''],
            stderr = [], exit_code = 0 \<rparr>"
proof -
  let ?w = "example_world [] empty_manifest_entries NoReply"
  have h: "((\<forall>ts. JObj [] \<noteq> JArr ts) \<and> (\<forall>ts. get_prop (JObj []) (js ''tools'') \<noteq> Some (JArr ts))) \<or>
           (\<forall>t \<in> set (manifest_tools (JObj [])). entry_name t = None) \<or>
           (\<forall>t \<in> set (manifest_tools (JObj [])). spec_entry_name t = None)"
    by simp
  have 1: "existsSync ?w (toolsDocsRoot ?w) \<and> loadMcpToolsJson ?w = Some (Inr (JObj [])) \<and>
        findBannedDomains ?w (cwd ?w) = Inr []"
    by code_simp
  have 2: "checkToolsCovered ?w (extractToolNames (JObj [])) (toolsDocsRoot ?w)
      = Inr ([js ''/repo/tools/search.mdx''], [])"
    by code_simp
  from empty_manifest_vacuous [OF h] 1 2 show ?thesis by blast
qed

end
